theory Spec2Isabelle
  imports Main "HOL-Library.Word" "HOL-Library.Multiset"
begin

section \<open>Basic types\<close>

text \<open>
  Word ids are 32-bit unsigned integers, n-gram ids and payload counts are 64-bit
  unsigned integers. A record of the store (what an \<open>ngram_pointer\<close> points to) is the
  list of its word ids followed by its payload value.
\<close>

type_synonym word_id = "32 word"
type_synonym ngram_id = "64 word"
type_synonym byte = "8 word"

record ngram_pointer =
  ng_words :: "word_id list"
  ng_value :: "64 word"

section \<open>The accumulator: \<open>ngrams_hash_block\<close>\<close>

text \<open>
  The prober is a template parameter of the hash block. It is taken as a record of its
  three operations over a prober state: initialisation with a hint and the number of
  buckets, dereference (the current candidate index) and advance.
\<close>

record 's prober =
  p_init :: "nat \<Rightarrow> nat \<Rightarrow> 's"
  p_deref :: "'s \<Rightarrow> nat"
  p_next :: "'s \<Rightarrow> 's"

text \<open>
  Modelled from the spec: \<open>hash_utils::linear_prober\<close>, the default prober, whose source
  is not part of the files at hand. It starts at the hint reduced modulo the number of
  buckets and steps to the next bucket, wrapping around at the end of the table.
\<close>

definition linear_prober :: "(nat \<times> nat) prober" where
  "linear_prober =
     \<lparr> p_init = (\<lambda>hint universe. (hint mod universe, universe)),
       p_deref = (\<lambda>(position, universe). position),
       p_next = (\<lambda>(position, universe). (Suc position mod universe, universe)) \<rparr>"

text \<open>
  Modelled from the spec: the default equality predicate \<open>equal_to\<close>, which compares the
  first \<open>num_bytes\<close> bytes of two word-id arrays, that is their first
  \<open>num_bytes / sizeof(word_id)\<close> components.
\<close>

definition equal_to :: "word_id list \<Rightarrow> word_id list \<Rightarrow> nat \<Rightarrow> bool" where
  "equal_to x y num_bytes = (take (num_bytes div 4) x = take (num_bytes div 4) y)"

definition invalid_ngram_id :: ngram_id where
  "invalid_ngram_id = - 1"

text \<open>
  The state of an \<open>ngrams_hash_block\<close>. The bucket table \<open>m_data\<close> is a vector of n-gram
  ids and \<open>m_index\<close> is the permutation built by \<open>sort\<close>.

  Modelled from the spec: the record store \<open>m_block\<close>, an \<open>ngrams_block<Value>\<close> whose
  header is not part of the files at hand. It holds, for each assigned id, the \<open>N\<close> word
  ids followed by the payload, and is taken as a map from ids to records. The memory
  that \<open>resize\<close> reserves for it is not part of the state: a record written by \<open>set\<close> is
  held whatever its id.
\<close>

record 's ngrams_hash_block =
  m_size :: "64 word"
  m_num_bytes :: nat
  m_prober :: 's
  m_data :: "ngram_id list"
  m_block :: "ngram_id \<rightharpoonup> ngram_pointer"
  m_index :: "ngram_id list"

definition buckets :: "'s ngrams_hash_block \<Rightarrow> nat" where
  "buckets b = length (m_data b)"

text \<open>
  \<open>pointer(at)\<close> asserts \<open>at < size()\<close> and reads the record of the id from the record
  store: \<open>m_block[at]\<close> in the \<open>LSD_RADIX_SORT\<close> build, \<open>m_block.access(at)\<close> otherwise.
\<close>

definition pointer :: "'s ngrams_hash_block \<Rightarrow> ngram_id \<Rightarrow> ngram_pointer option" where
  "pointer b at = (if at < m_size b then m_block b at else None)"

text \<open>
  The insertion at the end of \<open>find_or_insert\<close>: the bucket receives the current size,
  the size is incremented, and the record is written with payload \<open>Value(1)\<close>.
\<close>

definition insert_at :: "word_id list \<Rightarrow> nat \<Rightarrow> 's ngrams_hash_block \<Rightarrow> 's ngrams_hash_block" where
  "insert_at key it b =
     b\<lparr> m_data := (m_data b)[it := m_size b],
        m_size := m_size b + 1,
        m_block := (m_block b)(m_size b \<mapsto> \<lparr> ng_words = key, ng_value = 1 \<rparr>) \<rparr>"

text \<open>
  The \<open>while\<close> loop of \<open>find_or_insert\<close> together with the insertion that follows it.
  The result is the returned boolean, the output parameter \<open>at\<close> and the new state.
  Reading \<open>m_data[it]\<close> outside the table, or a bucket whose id fails the assertion of
  \<open>pointer\<close>, is undefined: \<open>None\<close>. A walk that never ends is \<open>None\<close> as well.
\<close>

partial_function (option) probe_walk ::
  "'s prober \<Rightarrow> word_id list \<Rightarrow> nat \<Rightarrow> nat \<Rightarrow> 's ngrams_hash_block
     \<Rightarrow> (bool \<times> ngram_id \<times> 's ngrams_hash_block) option" where
  "probe_walk P key start it b =
     (if \<not> it < buckets b then None
      else if m_data b ! it \<noteq> invalid_ngram_id then
        (case pointer b (m_data b ! it) of
           None \<Rightarrow> None
         | Some p \<Rightarrow>
             if equal_to (ng_words p) key (m_num_bytes b) then Some (True, m_data b ! it, b)
             else
               (let b' = b\<lparr> m_prober := p_next P (m_prober b) \<rparr>;
                    it' = p_deref P (m_prober b')
                in if it' = start then Some (False, invalid_ngram_id, b')
                   else probe_walk P key start it' b'))
      else Some (False, m_size b, insert_at key it b))"

definition find_or_insert ::
  "'s prober \<Rightarrow> word_id list \<Rightarrow> nat \<Rightarrow> 's ngrams_hash_block
     \<Rightarrow> (bool \<times> ngram_id \<times> 's ngrams_hash_block) option" where
  "find_or_insert P key hint b =
     (let b0 = b\<lparr> m_prober := p_init P hint (buckets b) \<rparr>;
          start = p_deref P (m_prober b0)
      in probe_walk P key start start b0)"


section \<open>Comparators\<close>

text \<open>
  The comparator is a template parameter of the sorter, the writer and the reader. It is
  taken as a record of its capabilities: the order \<open>N\<close>, the traversal of the component
  indices (\<open>begin\<close>, \<open>end\<close>, \<open>advance\<close>, \<open>next\<close>), \<open>lcp\<close> and \<open>compare\<close>. Indices are
  C \<open>int\<close>s.
\<close>

record comparator =
  cmp_order :: nat
  cmp_begin :: int
  cmp_end :: int
  cmp_advance :: "int \<Rightarrow> int \<Rightarrow> int"
  cmp_next :: "int \<Rightarrow> int"
  cmp_lcp :: "ngram_pointer \<Rightarrow> ngram_pointer \<Rightarrow> int"
  cmp_compare :: "ngram_pointer \<Rightarrow> ngram_pointer \<Rightarrow> int"

text \<open>\<open>ptr[i]\<close>: the \<open>i\<close>-th word id of a record; reading outside the record is undefined.\<close>

definition word_at :: "ngram_pointer \<Rightarrow> int \<Rightarrow> word_id option" where
  "word_at p i =
     (if 0 \<le> i \<and> i < int (length (ng_words p)) then Some (ng_words p ! nat i) else None)"

text \<open>
  The component indices in the order in which a comparator visits them: \<open>begin()\<close>, then
  \<open>next\<close> applied again and again, \<open>N\<close> indices in all.
\<close>

definition traversal :: "comparator \<Rightarrow> int list" where
  "traversal c = map (\<lambda>k. (cmp_next c ^^ k) (cmp_begin c)) [0..<cmp_order c]"

text \<open>
  Modelled from the spec: \<open>lcp(a, b)\<close> is the number of leading components, in
  comparator order, on which two records agree, and \<open>compare(a, b)\<close> is the sign of the
  first component, in comparator order, on which they differ. The comparator classes
  themselves are declared in a header that is not part of the files at hand.
\<close>

definition lcp_along :: "int list \<Rightarrow> ngram_pointer \<Rightarrow> ngram_pointer \<Rightarrow> nat" where
  "lcp_along t x y = length (takeWhile (\<lambda>i. word_at x i = word_at y i) t)"

definition compare_along :: "int list \<Rightarrow> ngram_pointer \<Rightarrow> ngram_pointer \<Rightarrow> int" where
  "compare_along t x y =
     (case dropWhile (\<lambda>i. word_at x i = word_at y i) t of
        [] \<Rightarrow> 0
      | i # _ \<Rightarrow>
          (case (word_at x i, word_at y i) of
             (Some a, Some b) \<Rightarrow> if a < b then - 1 else 1
           | _ \<Rightarrow> 0))"

text \<open>
  Modelled from the spec: prefix order starts at the leftmost component and advances by
  increasing the index; context order starts at the rightmost component and advances by
  decreasing it. \<open>end()\<close> is the last index visited, as the writer's loop uses it.
\<close>

definition prefix_order :: "nat \<Rightarrow> comparator" where
  "prefix_order N =
     \<lparr> cmp_order = N, cmp_begin = 0, cmp_end = int N - 1,
       cmp_advance = (\<lambda>i n. i + n), cmp_next = (\<lambda>i. i + 1),
       cmp_lcp = (\<lambda>x y. int (lcp_along (map int [0..<N]) x y)),
       cmp_compare = compare_along (map int [0..<N]) \<rparr>"

definition context_order :: "nat \<Rightarrow> comparator" where
  "context_order N =
     \<lparr> cmp_order = N, cmp_begin = int N - 1, cmp_end = 0,
       cmp_advance = (\<lambda>i n. i - n), cmp_next = (\<lambda>i. i - 1),
       cmp_lcp = (\<lambda>x y. int (lcp_along (rev (map int [0..<N])) x y)),
       cmp_compare = compare_along (rev (map int [0..<N])) \<rparr>"

text \<open>
  What the writer and the reader rely on in a comparator: its order is a positive
  \<open>uint8_t\<close>; its traversal visits every
  component index exactly once and ends at \<open>end()\<close>; \<open>advance\<close> from \<open>begin()\<close> agrees
  with repeated \<open>next\<close>; \<open>lcp\<close> counts the leading agreeing components of the traversal;
  and a record that compares strictly below another has a different n-gram.
\<close>

definition comparator_ok :: "comparator \<Rightarrow> bool" where
  "comparator_ok c =
     (0 < cmp_order c \<and> cmp_order c < 256 \<and>
      distinct (traversal c) \<and>
      set (traversal c) = {0..<int (cmp_order c)} \<and>
      cmp_end c = last (traversal c) \<and>
      (\<forall>k<cmp_order c. cmp_advance c (cmp_begin c) (int k) = traversal c ! k) \<and>
      (\<forall>x y. cmp_lcp c x y = int (lcp_along (traversal c) x y)) \<and>
      (\<forall>x y. cmp_compare c x y < 0 \<longrightarrow> ng_words x \<noteq> ng_words y))"


subsection \<open>Probe walks\<close>

text \<open>The state and the candidate index of the prober after \<open>k\<close> advances.\<close>

definition probe_state :: "'s prober \<Rightarrow> nat \<Rightarrow> nat \<Rightarrow> nat \<Rightarrow> 's" where
  "probe_state P hint B k = (p_next P ^^ k) (p_init P hint B)"

definition probe_seq :: "'s prober \<Rightarrow> nat \<Rightarrow> nat \<Rightarrow> nat \<Rightarrow> nat" where
  "probe_seq P hint B k = p_deref P (probe_state P hint B k)"

text \<open>A bucket inside the table that holds an entry whose record differs from the key.\<close>

definition occupied_other :: "'s ngrams_hash_block \<Rightarrow> word_id list \<Rightarrow> nat \<Rightarrow> bool" where
  "occupied_other b key it =
     (it < buckets b \<and> m_data b ! it \<noteq> invalid_ngram_id \<and>
      (case pointer b (m_data b ! it) of
         None \<Rightarrow> False
       | Some p \<Rightarrow> \<not> equal_to (ng_words p) key (m_num_bytes b)))"

text \<open>
  The probe walk for \<open>key\<close> comes back to its starting bucket after \<open>n\<close> advances, having
  met neither an empty bucket nor a matching entry.
\<close>

definition full_cycle ::
  "'s prober \<Rightarrow> word_id list \<Rightarrow> nat \<Rightarrow> 's ngrams_hash_block \<Rightarrow> nat \<Rightarrow> bool" where
  "full_cycle P key hint b n =
     (0 < n \<and> probe_seq P hint (buckets b) n = probe_seq P hint (buckets b) 0 \<and>
      (\<forall>k<n. occupied_other b key (probe_seq P hint (buckets b) k)) \<and>
      (\<forall>k<n. 0 < k \<longrightarrow> probe_seq P hint (buckets b) k \<noteq> probe_seq P hint (buckets b) 0))"

text \<open>
  The probe walk for \<open>key\<close> reaches an empty bucket after \<open>j\<close> advances, before coming
  back to its starting bucket and without meeting a matching entry.
\<close>

definition reaches_empty ::
  "'s prober \<Rightarrow> word_id list \<Rightarrow> nat \<Rightarrow> 's ngrams_hash_block \<Rightarrow> nat \<Rightarrow> bool" where
  "reaches_empty P key hint b j =
     (probe_seq P hint (buckets b) j < buckets b \<and>
      m_data b ! probe_seq P hint (buckets b) j = invalid_ngram_id \<and>
      (\<forall>k<j. occupied_other b key (probe_seq P hint (buckets b) k)) \<and>
      (\<forall>k\<le>j. 0 < k \<longrightarrow> probe_seq P hint (buckets b) k \<noteq> probe_seq P hint (buckets b) 0))"

subsection \<open>Sorting and enumeration\<close>














subsection \<open>The invariant of the bucket table\<close>

text \<open>An id below the size whose record holds the n-gram \<open>key\<close>.\<close>

definition stored_at :: "'s ngrams_hash_block \<Rightarrow> ngram_id \<Rightarrow> word_id list \<Rightarrow> bool" where
  "stored_at b at key = (at < m_size b \<and> (\<exists>p. m_block b at = Some p \<and> ng_words p = key))"

text \<open>
  The probe walk from \<open>hint\<close> gets as far as its \<open>j\<close>-th advance: the candidates up to
  there are inside the table, those before the \<open>j\<close>-th are taken, and the walk has not
  come back to its starting bucket.
\<close>

definition chain_to :: "'s prober \<Rightarrow> nat \<Rightarrow> 's ngrams_hash_block \<Rightarrow> nat \<Rightarrow> bool" where
  "chain_to P hint b j =
     ((\<forall>k\<le>j. probe_seq P hint (buckets b) k < buckets b) \<and>
      (\<forall>k<j. m_data b ! probe_seq P hint (buckets b) k \<noteq> invalid_ngram_id) \<and>
      (\<forall>k\<le>j. 0 < k \<longrightarrow> probe_seq P hint (buckets b) k \<noteq> probe_seq P hint (buckets b) 0))"

text \<open>
  The invariant that insertions with hints \<open>h key\<close> maintain, for n-grams of order \<open>N\<close>:
  the number of buckets is a \<open>uint64_t\<close>; every taken bucket holds an assigned id; every
  assigned id has a record of \<open>N\<close> word ids whose bucket lies on the probe walk of its
  own n-gram; no n-gram is stored under two ids; and the number of taken buckets is the
  size. The payloads of the records are not constrained.
\<close>

definition hb_inv ::
  "'s prober \<Rightarrow> (word_id list \<Rightarrow> nat) \<Rightarrow> nat \<Rightarrow> 's ngrams_hash_block \<Rightarrow> bool" where
  "hb_inv P h N b =
     (m_num_bytes b = N * 4 \<and> buckets b < 2 ^ 64 \<and>
      (\<forall>i<buckets b. m_data b ! i \<noteq> invalid_ngram_id \<longrightarrow> m_data b ! i < m_size b) \<and>
      (\<forall>at<m_size b. \<exists>p. m_block b at = Some p \<and> length (ng_words p) = N \<and>
          (\<exists>j. chain_to P (h (ng_words p)) b j \<and>
               m_data b ! probe_seq P (h (ng_words p)) (buckets b) j = at)) \<and>
      (\<forall>at1 at2 key. stored_at b at1 key \<and> stored_at b at2 key \<longrightarrow> at1 = at2) \<and>
      card {i. i < buckets b \<and> m_data b ! i \<noteq> invalid_ngram_id} = unat (m_size b))"

text \<open>
  A write of the payload through \<open>operator[](at)\<close>, which asserts \<open>at < size()\<close> and
  yields a reference to the payload of the record.
\<close>

definition write_value :: "'s ngrams_hash_block \<Rightarrow> ngram_id \<Rightarrow> 64 word \<Rightarrow> 's ngrams_hash_block option" where
  "write_value b at x =
     (if at < m_size b then
        (case m_block b at of
           None \<Rightarrow> None
         | Some p \<Rightarrow> Some (b\<lparr> m_block := (m_block b)(at \<mapsto> p\<lparr> ng_value := x \<rparr>) \<rparr>))
      else None)"

text \<open>The n-grams stored in the accumulator.\<close>

definition stored_ngrams :: "'s ngrams_hash_block \<Rightarrow> word_id list set" where
  "stored_ngrams b = {key. \<exists>at. stored_at b at key}"



section \<open>The block codec\<close>

subsection \<open>Bits, bytes and widths\<close>

text \<open>The \<open>len\<close> low bits of a number, least significant first, and back.\<close>

fun bits_of :: "nat \<Rightarrow> nat \<Rightarrow> bool list" where
  "bits_of x 0 = []"
| "bits_of x (Suc len) = odd x # bits_of (x div 2) len"

fun nat_of_bits :: "bool list \<Rightarrow> nat" where
  "nat_of_bits [] = 0"
| "nat_of_bits (b # bs) = (if b then 1 else 0) + 2 * nat_of_bits bs"

text \<open>
  Modelled from the spec: \<open>util::ceil_log2\<close>, the least \<open>k\<close> with \<open>x \<le> 2^k\<close>, which is
  the number written \<open>\<lceil>log\<^sub>2 x\<rceil>\<close>; its source is not part of the files at hand.
\<close>

fun ceil_log2 :: "nat \<Rightarrow> nat" where
  "ceil_log2 x = (if x \<le> 1 then 0 else Suc (ceil_log2 ((x + 1) div 2)))"

text \<open>
  Modelled from the spec: \<open>bit_vector_builder\<close>, the bit buffer of the writer, whose
  source is not part of the files at hand. The buffer is the list of its bits;
  \<open>append_bits(x, len)\<close> appends the \<open>len\<close> bits of \<open>x\<close>, and a value that does not fit
  into \<open>len\<close> bits is outside its contract.
\<close>

definition append_bits :: "nat \<Rightarrow> nat \<Rightarrow> bool list \<Rightarrow> bool list option" where
  "append_bits x len buf = (if x < 2 ^ len then Some (buf @ bits_of x len) else None)"

text \<open>
  \<open>os.write(bits.data(), bytes)\<close>: the first \<open>bytes\<close> bytes of the buffer's words. Byte
  \<open>k\<close> holds the bits \<open>8k, ..., 8k+7\<close>, and the bits after the last appended one are zero
  (the spec's zero padding).
\<close>

fun byte_chunks :: "nat \<Rightarrow> bool list \<Rightarrow> byte list" where
  "byte_chunks 0 bs = []"
| "byte_chunks (Suc n) bs = of_nat (nat_of_bits (take 8 bs)) # byte_chunks n (drop 8 bs)"

definition bits_of_bytes :: "byte list \<Rightarrow> bool list" where
  "bits_of_bytes bs = concat (map (\<lambda>b. bits_of (unat b) 8) bs)"

text \<open>\<open>essentials::save_pod\<close> of a \<open>uint8_t\<close> and of a \<open>size_t\<close> (8 bytes, little endian).\<close>

definition save_pod8 :: "nat \<Rightarrow> byte list" where
  "save_pod8 x = [of_nat x]"

definition save_pod64 :: "64 word \<Rightarrow> byte list" where
  "save_pod64 x = byte_chunks 8 (bits_of (unat x) 64)"

definition load_pod64 :: "byte list \<Rightarrow> 64 word" where
  "load_pod64 bs = of_nat (nat_of_bits (bits_of_bytes bs))"

text \<open>
  Modelled from the spec: \<open>bits_iterator\<close>, the reader's cursor into the bits of a block;
  \<open>get_bits(len)\<close> returns the next \<open>len\<close> bits as a number and moves on. Reading past
  the end of the block's memory is undefined.
\<close>

record bits_iterator =
  bi_data :: "bool list"
  bi_position :: nat

definition get_bits :: "nat \<Rightarrow> bits_iterator \<Rightarrow> (nat \<times> bits_iterator) option" where
  "get_bits len bi =
     (if bi_position bi + len \<le> length (bi_data bi)
      then Some (nat_of_bits (take len (drop (bi_position bi) (bi_data bi))),
                 bi\<lparr> bi_position := bi_position bi + len \<rparr>)
      else None)"

subsection \<open>The writer\<close>

text \<open>
  The block size is the compile-time constant \<open>BLOCK_BYTES\<close> (64 MiB by default; the
  source mentions 1 MiB as an alternative). The model takes it as a parameter \<open>bb\<close>.
\<close>

definition BLOCK_BYTES :: nat where
  "BLOCK_BYTES = 64 * 1024 * 1024"

record ngrams_block_statistics =
  max_word_id :: nat
  max_count :: nat

record writer =
  m_comparator :: comparator
  m_buffer :: "bool list"
  m_l :: nat

text \<open>The constructor \<open>writer(N)\<close>, for the comparator built from \<open>N\<close>.\<close>

definition new_writer :: "comparator \<Rightarrow> writer" where
  "new_writer c = \<lparr> m_comparator = c, m_buffer = [], m_l = ceil_log2 (cmp_order c + 1) \<rparr>"

text \<open>Appending \<open>ptr[i]\<close> in \<open>w\<close> bits for each index of a list, in order.\<close>

fun append_words :: "nat \<Rightarrow> ngram_pointer \<Rightarrow> int list \<Rightarrow> bool list \<Rightarrow> bool list option" where
  "append_words w ptr [] buf = Some buf"
| "append_words w ptr (i # rest) buf =
     (case word_at ptr i of
        None \<Rightarrow> None
      | Some x \<Rightarrow>
          (case append_bits (unat x) w buf of
             None \<Rightarrow> None
           | Some buf' \<Rightarrow> append_words w ptr rest buf'))"

text \<open>\<open>m_buffer.append_bits((ptr.value(N))->value, v)\<close>\<close>

definition append_value :: "nat \<Rightarrow> ngram_pointer \<Rightarrow> bool list \<Rightarrow> bool list option" where
  "append_value v ptr buf = append_bits (unat (ng_value ptr)) v buf"

text \<open>The lambda \<open>explicit_write\<close>: the \<open>N\<close> word ids by increasing index, then the payload.\<close>

definition explicit_write ::
  "nat \<Rightarrow> nat \<Rightarrow> nat \<Rightarrow> ngram_pointer \<Rightarrow> bool list \<Rightarrow> bool list option" where
  "explicit_write N w v ptr buf =
     (case append_words w ptr (map int [0..<N]) buf of
        None \<Rightarrow> None
      | Some buf' \<Rightarrow> append_value v ptr buf')"

text \<open>
  The loop \<open>for (;; m_comparator.next(i))\<close> of the front-coded branch: it appends
  \<open>ptr[i]\<close> and stops once \<open>i\<close> is \<open>end()\<close>. A loop that never meets \<open>end()\<close> is \<open>None\<close>.
\<close>

partial_function (option) write_suffix ::
  "comparator \<Rightarrow> nat \<Rightarrow> ngram_pointer \<Rightarrow> int \<Rightarrow> bool list \<Rightarrow> bool list option" where
  "write_suffix c w ptr i buf =
     (case word_at ptr i of
        None \<Rightarrow> None
      | Some x \<Rightarrow>
          (case append_bits (unat x) w buf of
             None \<Rightarrow> None
           | Some buf' \<Rightarrow>
               if i = cmp_end c then Some buf' else write_suffix c w ptr (cmp_next c i) buf'))"

text \<open>
  The \<open>else\<close> branch of the loop body: the front-coded encoding of a record against its
  predecessor. The assertion \<open>lcp < N\<close> is a branch of the model; the \<open>int\<close> lcp is
  converted to an unsigned 64-bit value when it is appended.
\<close>

definition encode_record ::
  "comparator \<Rightarrow> nat \<Rightarrow> nat \<Rightarrow> nat \<Rightarrow> ngram_pointer \<Rightarrow> ngram_pointer \<Rightarrow> bool list
     \<Rightarrow> bool list option" where
  "encode_record c l w v ptr prev_ptr buf =
     (let lcp = cmp_lcp c ptr prev_ptr in
      if \<not> lcp < int (cmp_order c) then None
      else
        (case append_bits (nat (lcp mod 2 ^ 64)) l buf of
           None \<Rightarrow> None
         | Some buf1 \<Rightarrow>
             if lcp = 0 then explicit_write (cmp_order c) w v ptr buf1
             else
               (case write_suffix c w ptr (cmp_advance c (cmp_begin c) lcp) buf1 of
                  None \<Rightarrow> None
                | Some buf2 \<Rightarrow> append_value v ptr buf2)))"

text \<open>The lambda \<open>save\<close>: the record count of the block, then \<open>bytes\<close> bytes of the buffer.\<close>

definition save :: "64 word \<Rightarrow> bool list \<Rightarrow> nat \<Rightarrow> byte list \<Rightarrow> byte list" where
  "save ngrams_in_block bits bytes os = os @ save_pod64 ngrams_in_block @ byte_chunks bytes bits"

text \<open>
  \<open>BLOCK_BITS - m_buffer.size()\<close>, an unsigned 64-bit subtraction, and the worst-case
  record size.
\<close>

definition bits_left :: "nat \<Rightarrow> nat \<Rightarrow> nat" where
  "bits_left bb used = (8 * bb + 2 ^ 64 - used mod 2 ^ 64) mod 2 ^ 64"

definition max_record_size :: "nat \<Rightarrow> nat \<Rightarrow> nat \<Rightarrow> nat \<Rightarrow> nat" where
  "max_record_size l N w v = l + N * w + v"

text \<open>The variables that the loop of \<open>write_block\<close> carries.\<close>

record write_state =
  ws_os :: "byte list"
  ws_buffer :: "bool list"
  ngrams_in_block :: "64 word"
  written :: "64 word"
  encoded :: "64 word"
  prev_ptr :: ngram_pointer

text \<open>The body of the loop for the record \<open>ptr\<close>, without the increments of the loop header.\<close>

definition write_step ::
  "nat \<Rightarrow> comparator \<Rightarrow> nat \<Rightarrow> nat \<Rightarrow> nat \<Rightarrow> ngram_pointer \<Rightarrow> write_state
     \<Rightarrow> write_state option" where
  "write_step bb c l w v ptr st =
     (if bits_left bb (length (ws_buffer st)) < max_record_size l (cmp_order c) w v then
        (case explicit_write (cmp_order c) w v ptr [] of
           None \<Rightarrow> None
         | Some buf \<Rightarrow>
             Some (st\<lparr> ws_os := save (ngrams_in_block st) (ws_buffer st) bb (ws_os st),
                       ws_buffer := buf, written := encoded st, ngrams_in_block := 0,
                       prev_ptr := ptr \<rparr>))
      else
        (case encode_record c l w v ptr (prev_ptr st) (ws_buffer st) of
           None \<Rightarrow> None
         | Some buf \<Rightarrow> Some (st\<lparr> ws_buffer := buf, prev_ptr := ptr \<rparr>)))"

text \<open>The loop over the records after the first, with \<open>++encoded, ++ngrams_in_block\<close>.\<close>

fun write_loop ::
  "nat \<Rightarrow> comparator \<Rightarrow> nat \<Rightarrow> nat \<Rightarrow> nat \<Rightarrow> ngram_pointer list \<Rightarrow> write_state
     \<Rightarrow> write_state option" where
  "write_loop bb c l w v [] st = Some st"
| "write_loop bb c l w v (ptr # rest) st =
     (case write_step bb c l w v ptr st of
        None \<Rightarrow> None
      | Some st' \<Rightarrow>
          write_loop bb c l w v rest
            (st'\<lparr> encoded := encoded st' + 1, ngrams_in_block := ngrams_in_block st' + 1 \<rparr>))"

text \<open>
  \<open>write_block\<close> on the records \<open>run\<close> (the range from \<open>begin\<close> to \<open>end\<close>), returning the
  output stream. The widths are \<open>uint8_t\<close>. Dereferencing \<open>begin\<close> of an empty range is
  undefined. The internal buffer is scratch space, reinitialised by every call.
\<close>

definition write_block ::
  "nat \<Rightarrow> writer \<Rightarrow> byte list \<Rightarrow> ngram_pointer list \<Rightarrow> 64 word \<Rightarrow> ngrams_block_statistics
     \<Rightarrow> byte list option" where
  "write_block bb wr os run n stats =
     (let w = ceil_log2 (max_word_id stats + 1) mod 256;
          v = ceil_log2 (max_count stats + 1) mod 256;
          os1 = os @ save_pod8 w @ save_pod8 v;
          c = m_comparator wr;
          N = cmp_order c
      in case run of
           [] \<Rightarrow> None
         | first # rest \<Rightarrow>
             (case explicit_write N w v first [] of
                None \<Rightarrow> None
              | Some buf \<Rightarrow>
                  (case write_loop bb c (m_l wr) w v rest
                          \<lparr> ws_os = os1, ws_buffer = buf, ngrams_in_block = 1, written = 0,
                            encoded = 0, prev_ptr = first \<rparr> of
                     None \<Rightarrow> None
                   | Some st \<Rightarrow>
                       Some (if written st \<noteq> n
                             then save (ngrams_in_block st) (ws_buffer st)
                                    ((length (ws_buffer st) + 7) div 8) (ws_os st)
                             else ws_os st))))"

subsection \<open>The reader\<close>

text \<open>
  The scratch buffer \<open>cache\<close> of the iterator holds one record: \<open>N\<close> word ids followed
  by the payload. Its cursor \<open>pos\<close> is kept as a component index (the byte offset divided
  by \<open>W = sizeof(word_id)\<close>). A word id is stored at a component, the payload after the
  last component; a store elsewhere is treated as undefined.
\<close>

record cache =
  c_words :: "word_id list"
  c_value :: "64 word"
  c_pos :: int

definition new_cache :: "nat \<Rightarrow> cache" where
  "new_cache N = \<lparr> c_words = replicate N 0, c_value = 0, c_pos = 0 \<rparr>"

definition cache_init :: "cache \<Rightarrow> cache" where
  "cache_init ca = ca\<lparr> c_pos := 0 \<rparr>"

definition store_word :: "word_id \<Rightarrow> cache \<Rightarrow> cache option" where
  "store_word x ca =
     (if 0 \<le> c_pos ca \<and> c_pos ca < int (length (c_words ca))
      then Some (ca\<lparr> c_words := (c_words ca)[nat (c_pos ca) := x] \<rparr>)
      else None)"

definition store_value :: "64 word \<Rightarrow> cache \<Rightarrow> cache option" where
  "store_value x ca =
     (if c_pos ca = int (length (c_words ca)) then Some (ca\<lparr> c_value := x \<rparr>) else None)"

text \<open>The fields of \<open>fc::ngrams_block\<close> and of its \<open>fc_iterator\<close>.\<close>

record fc_block =
  blk_comparator :: comparator
  blk_memory :: "bool list"
  blk_size :: "64 word"
  blk_N :: nat
  blk_l :: nat
  blk_w :: nat
  blk_v :: nat

record fc_iterator =
  m_it :: bits_iterator
  it_comparator :: comparator
  m_back :: cache
  m_pos :: "64 word"
  it_size :: "64 word"
  it_l :: nat
  it_w :: nat
  it_v :: nat

text \<open>The constructor \<open>ngrams_block(N, size, w, v)\<close> and \<open>read\<close>.\<close>

definition new_fc_block :: "comparator \<Rightarrow> 64 word \<Rightarrow> nat \<Rightarrow> nat \<Rightarrow> fc_block" where
  "new_fc_block c n w v =
     \<lparr> blk_comparator = c, blk_memory = [], blk_size = n, blk_N = cmp_order c,
       blk_l = ceil_log2 (cmp_order c + 1), blk_w = w, blk_v = v \<rparr>"

definition read_block :: "byte list \<Rightarrow> fc_block \<Rightarrow> fc_block" where
  "read_block bytes blk = blk\<lparr> blk_memory := bits_of_bytes bytes \<rparr>"

text \<open>\<open>decode_value\<close>: the payload is read in \<open>m_v\<close> bits and stored at the cursor.\<close>

definition decode_value :: "fc_iterator \<Rightarrow> fc_iterator option" where
  "decode_value it =
     (case get_bits (it_v it) (m_it it) of
        None \<Rightarrow> None
      | Some (x, bi) \<Rightarrow>
          (case store_value (of_nat x) (m_back it) of
             None \<Rightarrow> None
           | Some ca \<Rightarrow> Some (it\<lparr> m_it := bi, m_back := ca\<lparr> c_pos := c_pos ca + 2 \<rparr> \<rparr>)))"

text \<open>The loop of \<open>decode_explicit\<close>, for the given number of word ids.\<close>

fun decode_words :: "nat \<Rightarrow> fc_iterator \<Rightarrow> fc_iterator option" where
  "decode_words 0 it = Some it"
| "decode_words (Suc n) it =
     (case get_bits (it_w it) (m_it it) of
        None \<Rightarrow> None
      | Some (x, bi) \<Rightarrow>
          (case store_word (of_nat x) (m_back it) of
             None \<Rightarrow> None
           | Some ca \<Rightarrow>
               decode_words n (it\<lparr> m_it := bi, m_back := ca\<lparr> c_pos := c_pos ca + 1 \<rparr> \<rparr>)))"

definition decode_explicit :: "fc_iterator \<Rightarrow> fc_iterator option" where
  "decode_explicit it =
     (case decode_words (cmp_order (it_comparator it)) it of
        None \<Rightarrow> None
      | Some it' \<Rightarrow> decode_value it')"

text \<open>
  The loop \<open>for (int j = 0; j < N - lcp; ++j)\<close> of \<open>decode\<close>: a word id is read and
  stored at the cursor, the index \<open>i\<close> moves to the next component in comparator order
  and the cursor follows it.
\<close>

fun decode_suffix :: "nat \<Rightarrow> int \<Rightarrow> fc_iterator \<Rightarrow> fc_iterator option" where
  "decode_suffix 0 i it = Some it"
| "decode_suffix (Suc n) i it =
     (case get_bits (it_w it) (m_it it) of
        None \<Rightarrow> None
      | Some (x, bi) \<Rightarrow>
          (case store_word (of_nat x) (m_back it) of
             None \<Rightarrow> None
           | Some ca \<Rightarrow>
               decode_suffix n (cmp_next (it_comparator it) i)
                 (it\<lparr> m_it := bi,
                      m_back := ca\<lparr> c_pos := cmp_next (it_comparator it) i \<rparr> \<rparr>)))"

text \<open>\<open>decode\<close>, with its assertion \<open>lcp < N\<close> as a branch.\<close>

definition decode :: "fc_iterator \<Rightarrow> fc_iterator option" where
  "decode it =
     (let it0 = it\<lparr> m_back := cache_init (m_back it) \<rparr> in
      case get_bits (it_l it0) (m_it it0) of
        None \<Rightarrow> None
      | Some (x, bi) \<Rightarrow>
          (let lcp = int x;
               it1 = it0\<lparr> m_it := bi \<rparr>;
               c = it_comparator it1;
               N = cmp_order c
           in if lcp = 0 then decode_explicit it1
              else
                (let i = cmp_advance c (cmp_begin c) lcp;
                     it2 = it1\<lparr> m_back := (m_back it1)\<lparr> c_pos := i \<rparr> \<rparr>
                 in if \<not> lcp < int N then None
                    else
                      (case decode_suffix (N - nat lcp) i it2 of
                         None \<Rightarrow> None
                       | Some it3 \<Rightarrow>
                           decode_value (it3\<lparr> m_back := (m_back it3)\<lparr> c_pos := int N \<rparr> \<rparr>)))))"

text \<open>The constructor of the iterator at position \<open>pos\<close> of a block.\<close>

definition new_fc_iterator :: "64 word \<Rightarrow> fc_block \<Rightarrow> fc_iterator option" where
  "new_fc_iterator pos blk =
     (let it = \<lparr> m_it = \<lparr> bi_data = blk_memory blk, bi_position = 0 \<rparr>,
                 it_comparator = blk_comparator blk, m_back = new_cache (blk_N blk),
                 m_pos = pos, it_size = blk_size blk,
                 it_l = blk_l blk, it_w = blk_w blk, it_v = blk_v blk \<rparr>
      in if pos \<noteq> blk_size blk then decode_explicit it else Some it)"

definition block_begin :: "fc_block \<Rightarrow> fc_iterator option" where
  "block_begin blk = new_fc_iterator 0 blk"

definition block_end :: "fc_block \<Rightarrow> fc_iterator option" where
  "block_end blk = new_fc_iterator (blk_size blk) blk"

text \<open>\<open>operator*\<close>: the record in the scratch buffer; \<open>operator++\<close>.\<close>

definition deref :: "fc_iterator \<Rightarrow> ngram_pointer" where
  "deref it = \<lparr> ng_words = c_words (m_back it), ng_value = c_value (m_back it) \<rparr>"

definition increment :: "fc_iterator \<Rightarrow> fc_iterator option" where
  "increment it =
     (if m_pos it = it_size it - 1 then Some (it\<lparr> m_pos := m_pos it + 1 \<rparr>)
      else
        (case decode it of
           None \<Rightarrow> None
         | Some it' \<Rightarrow> Some (it'\<lparr> m_pos := m_pos it' + 1 \<rparr>)))"

text \<open>None of the decoding steps touches the position or the size of the iterator.\<close>

lemma decode_value_pos:
  "decode_value it = Some it' \<Longrightarrow> m_pos it' = m_pos it \<and> it_size it' = it_size it"
  by (auto simp: decode_value_def split: option.splits prod.splits)

lemma decode_words_pos:
  "decode_words n it = Some it' \<Longrightarrow> m_pos it' = m_pos it \<and> it_size it' = it_size it"
  by (induction n arbitrary: it) (auto split: option.splits prod.splits)

lemma decode_suffix_pos:
  "decode_suffix n i it = Some it' \<Longrightarrow> m_pos it' = m_pos it \<and> it_size it' = it_size it"
  by (induction n arbitrary: i it) (auto split: option.splits prod.splits)

lemma decode_explicit_pos:
  assumes "decode_explicit it = Some it'"
  shows "m_pos it' = m_pos it \<and> it_size it' = it_size it"
proof -
  obtain it1 where a: "decode_words (cmp_order (it_comparator it)) it = Some it1"
    and b: "decode_value it1 = Some it'"
    using assms by (auto simp: decode_explicit_def split: option.splits)
  show ?thesis
    using decode_words_pos[OF a] decode_value_pos[OF b] by simp
qed

lemma decode_pos:
  assumes "decode it = Some it'"
  shows "m_pos it' = m_pos it \<and> it_size it' = it_size it"
proof -
  let ?it0 = "it\<lparr> m_back := cache_init (m_back it) \<rparr>"
  obtain x bi where g: "get_bits (it_l ?it0) (m_it ?it0) = Some (x, bi)"
    using assms by (auto simp: decode_def Let_def split: option.splits)
  let ?it1 = "?it0\<lparr> m_it := bi \<rparr>"
  show ?thesis
  proof (cases "int x = 0")
    case True
    then have "decode_explicit ?it1 = Some it'"
      using assms g by (simp add: decode_def Let_def)
    then show ?thesis
      using decode_explicit_pos by fastforce
  next
    case False
    let ?c = "it_comparator ?it1"
    let ?i = "cmp_advance ?c (cmp_begin ?c) (int x)"
    let ?it2 = "?it1\<lparr> m_back := (m_back ?it1)\<lparr> c_pos := ?i \<rparr> \<rparr>"
    obtain it3 where a: "decode_suffix (cmp_order ?c - nat (int x)) ?i ?it2 = Some it3"
      and b: "decode_value (it3\<lparr> m_back := (m_back it3)\<lparr> c_pos := int (cmp_order ?c) \<rparr> \<rparr>)
                = Some it'"
      using assms g False
      by (auto simp: decode_def Let_def split: option.splits if_splits)
    show ?thesis
      using decode_suffix_pos[OF a] decode_value_pos[OF b] by simp
  qed
qed

lemma increment_pos:
  "increment it = Some it' \<Longrightarrow> m_pos it' = m_pos it + 1 \<and> it_size it' = it_size it"
proof (cases "m_pos it = it_size it - 1")
  case True
  then show "increment it = Some it' \<Longrightarrow> ?thesis"
    by (auto simp: increment_def)
next
  case False
  assume "increment it = Some it'"
  then obtain it1 where a: "decode it = Some it1" and b: "it' = it1\<lparr> m_pos := m_pos it1 + 1 \<rparr>"
    using False by (auto simp: increment_def split: option.splits)
  show ?thesis
    using decode_pos[OF a] b by simp
qed

text \<open>
  The loop \<open>for (it = begin(); it != end(); ++it)\<close> that collects a copy of \<open>*it\<close>;
  two iterators are equal when their positions are.
\<close>

function collect :: "fc_iterator \<Rightarrow> ngram_pointer list option" where
  "collect it =
     (if m_pos it \<noteq> it_size it then
        (case increment it of
           None \<Rightarrow> None
         | Some it' \<Rightarrow> map_option ((#) (deref it)) (collect it'))
      else Some [])"
  by pat_completeness auto
termination
proof (relation "measure (\<lambda>it. unat (it_size it - m_pos it))")
  show "wf (measure (\<lambda>it. unat (it_size it - m_pos it)))"
    by simp
next
  fix it it' :: fc_iterator
  assume ne: "m_pos it \<noteq> it_size it" and inc: "increment it = Some it'"
  have nz: "it_size it - m_pos it \<noteq> 0"
    using ne by simp
  have eq: "it_size it' - m_pos it' = (it_size it - m_pos it) - 1"
    using increment_pos[OF inc] by simp
  have "unat ((it_size it - m_pos it) - 1) < unat (it_size it - m_pos it)"
    using nz by (simp add: unat_minus_one unat_gt_0)
  then have "unat (it_size it' - m_pos it') < unat (it_size it - m_pos it)"
    by (simp only: eq)
  then show "(it', it) \<in> measure (\<lambda>it. unat (it_size it - m_pos it))"
    by simp
qed

text \<open>Reading the \<open>n\<close> records of one block from its bytes.\<close>

definition decode_block ::
  "comparator \<Rightarrow> 64 word \<Rightarrow> nat \<Rightarrow> nat \<Rightarrow> byte list \<Rightarrow> ngram_pointer list option" where
  "decode_block c n w v bytes =
     (case block_begin (read_block bytes (new_fc_block c n w v)) of
        None \<Rightarrow> None
      | Some it \<Rightarrow> collect it)"

text \<open>
  Modelled from the spec: the block-file reader, which is not part of the files at hand.
  It reads the two width bytes, then block after block: the 8-byte record count and up
  to \<open>bb\<close> bytes of bit-packed records (the last block may be shorter), and concatenates
  the records of the block iterators.
\<close>

function read_blocks :: "nat \<Rightarrow> byte list \<Rightarrow> (64 word \<times> byte list) list option" where
  "read_blocks bb s =
     (if s = [] then Some []
      else if length s < 8 then None
      else map_option ((#) (load_pod64 (take 8 s), take bb (drop 8 s)))
             (read_blocks bb (drop (8 + bb) s)))"
  by pat_completeness auto
termination
  by (relation "measure (\<lambda>(bb, s). length s)") auto

definition decode_stream :: "comparator \<Rightarrow> nat \<Rightarrow> byte list \<Rightarrow> ngram_pointer list option" where
  "decode_stream c bb s =
     (case s of
        w # v # rest \<Rightarrow>
          (case read_blocks bb rest of
             None \<Rightarrow> None
           | Some blocks \<Rightarrow>
               map_option concat
                 (those (map (\<lambda>(n, body). decode_block c n (unat w) (unat v) body) blocks)))
      | _ \<Rightarrow> None)"

subsection \<open>The layout of the encoded bits\<close>

text \<open>
  The layout that the spec describes, written down independently of the writer's code,
  to be compared with what the writer appends: the word ids of a record at a list of
  component indices, each in \<open>w\<close> bits; an explicit record; and a front-coded record,
  which starts with the lcp in \<open>l\<close> bits and, unless the lcp is 0, continues with the
  components after the first \<open>lcp\<close> ones in comparator order.
\<close>

definition word_bits :: "nat \<Rightarrow> ngram_pointer \<Rightarrow> int list \<Rightarrow> bool list" where
  "word_bits w ptr idx = concat (map (\<lambda>i. bits_of (unat (ng_words ptr ! nat i)) w) idx)"

definition explicit_bits :: "nat \<Rightarrow> nat \<Rightarrow> nat \<Rightarrow> ngram_pointer \<Rightarrow> bool list" where
  "explicit_bits N w v ptr =
     word_bits w ptr (map int [0..<N]) @ bits_of (unat (ng_value ptr)) v"

definition record_bits ::
  "comparator \<Rightarrow> nat \<Rightarrow> nat \<Rightarrow> nat \<Rightarrow> ngram_pointer \<Rightarrow> ngram_pointer \<Rightarrow> bool list" where
  "record_bits c l w v ptr prev =
     (let k = lcp_along (traversal c) ptr prev in
      bits_of k l @
      (if k = 0 then explicit_bits (cmp_order c) w v ptr
       else word_bits w ptr (drop k (traversal c)) @ bits_of (unat (ng_value ptr)) v))"

text \<open>The bits of the records that follow \<open>prev\<close> in a block, and the bits of a whole block.\<close>

fun tail_bits ::
  "comparator \<Rightarrow> nat \<Rightarrow> nat \<Rightarrow> nat \<Rightarrow> ngram_pointer \<Rightarrow> ngram_pointer list \<Rightarrow> bool list" where
  "tail_bits c l w v prev [] = []"
| "tail_bits c l w v prev (ptr # rest) = record_bits c l w v ptr prev @ tail_bits c l w v ptr rest"

fun block_bits :: "comparator \<Rightarrow> nat \<Rightarrow> nat \<Rightarrow> nat \<Rightarrow> ngram_pointer list \<Rightarrow> bool list" where
  "block_bits c l w v [] = []"
| "block_bits c l w v (first # rest) =
     explicit_bits (cmp_order c) w v first @ tail_bits c l w v first rest"

text \<open>
  The flush policy of the spec: a record goes into the current block unless the bits
  that remain in it are fewer than the worst-case record size, in which case the block
  is closed and the record opens the next one. \<open>g\<close> is the content of the current block.
\<close>

fun split_run ::
  "nat \<Rightarrow> comparator \<Rightarrow> nat \<Rightarrow> nat \<Rightarrow> nat \<Rightarrow> ngram_pointer list \<Rightarrow> ngram_pointer list
     \<Rightarrow> ngram_pointer list list" where
  "split_run bb c l w v g [] = [g]"
| "split_run bb c l w v g (ptr # rest) =
     (if 8 * bb - length (block_bits c l w v g) < max_record_size l (cmp_order c) w v
      then g # split_run bb c l w v [ptr] rest
      else split_run bb c l w v (g @ [ptr]) rest)"

text \<open>
  The bytes of a closed block and of the last block of a run: the 8-byte record count,
  then the bits, padded to \<open>bb\<close> bytes for a closed block and to whole bytes for the last.
\<close>

definition closed_block :: "nat \<Rightarrow> comparator \<Rightarrow> nat \<Rightarrow> nat \<Rightarrow> nat \<Rightarrow> ngram_pointer list \<Rightarrow> byte list" where
  "closed_block bb c l w v g =
     save_pod64 (of_nat (length g)) @ byte_chunks bb (block_bits c l w v g)"

definition last_block :: "comparator \<Rightarrow> nat \<Rightarrow> nat \<Rightarrow> nat \<Rightarrow> ngram_pointer list \<Rightarrow> byte list" where
  "last_block c l w v g =
     save_pod64 (of_nat (length g)) @
     byte_chunks ((length (block_bits c l w v g) + 7) div 8) (block_bits c l w v g)"

definition run_bytes ::
  "nat \<Rightarrow> comparator \<Rightarrow> nat \<Rightarrow> nat \<Rightarrow> nat \<Rightarrow> ngram_pointer list list \<Rightarrow> byte list" where
  "run_bytes bb c l w v gs =
     concat (map (closed_block bb c l w v) (butlast gs)) @ last_block c l w v (last gs)"

text \<open>
  A record fits the widths of a block: it has \<open>N\<close> word ids, each below \<open>2^w\<close>, and a
  payload below \<open>2^v\<close>.
\<close>

definition fits :: "nat \<Rightarrow> nat \<Rightarrow> nat \<Rightarrow> ngram_pointer \<Rightarrow> bool" where
  "fits N w v ptr =
     (length (ng_words ptr) = N \<and> list_all (\<lambda>x. unat x < 2 ^ w) (ng_words ptr) \<and>
      unat (ng_value ptr) < 2 ^ v)"

text \<open>
  The statistics bound the run: no word id exceeds \<open>max_word_id\<close> and no payload exceeds
  \<open>max_count\<close>, which are values of the word-id and payload types themselves.
\<close>

definition stats_cover :: "ngrams_block_statistics \<Rightarrow> ngram_pointer list \<Rightarrow> bool" where
  "stats_cover stats run =
     (max_word_id stats < 2 ^ 32 \<and> max_count stats < 2 ^ 64 \<and>
      list_all (\<lambda>ptr. list_all (\<lambda>x. unat x \<le> max_word_id stats) (ng_words ptr) \<and>
                      unat (ng_value ptr) \<le> max_count stats) run)"

text \<open>The widths that \<open>write_block\<close> computes from the statistics.\<close>

definition word_width :: "ngrams_block_statistics \<Rightarrow> nat" where
  "word_width stats = ceil_log2 (max_word_id stats + 1) mod 256"

definition count_width :: "ngrams_block_statistics \<Rightarrow> nat" where
  "count_width stats = ceil_log2 (max_count stats + 1) mod 256"

text \<open>
  The scratch buffer after the word ids of \<open>ptr\<close> at the component indices \<open>idx\<close> have
  been stored over the word ids \<open>ws\<close> of the previous record.
\<close>

fun overwrite :: "word_id list \<Rightarrow> ngram_pointer \<Rightarrow> int list \<Rightarrow> word_id list" where
  "overwrite ws ptr [] = ws"
| "overwrite ws ptr (i # idx) = overwrite (ws[nat i := ng_words ptr ! nat i]) ptr idx"

text \<open>
  A block of \<open>bb\<close> bytes has room for a record of the worst-case size, and its number of
  bits is a 64-bit value. This holds for \<open>BLOCK_BYTES\<close>, whatever the order and the
  statistics are.
\<close>

definition block_room :: "nat \<Rightarrow> comparator \<Rightarrow> ngrams_block_statistics \<Rightarrow> bool" where
  "block_room bb c stats =
     (8 * bb < 2 ^ 64 \<and>
      max_record_size (ceil_log2 (cmp_order c + 1)) (cmp_order c)
        (word_width stats) (count_width stats) \<le> 8 * bb)"

text \<open>The groups of records, one per block, into which \<open>write_block\<close> splits a run.\<close>

definition run_groups ::
  "nat \<Rightarrow> comparator \<Rightarrow> ngrams_block_statistics \<Rightarrow> ngram_pointer list \<Rightarrow> ngram_pointer list list" where
  "run_groups bb c stats run =
     split_run bb c (ceil_log2 (cmp_order c + 1)) (word_width stats) (count_width stats)
       [hd run] (tl run)"

text \<open>The value of the lcp field of a front-coded record: its first \<open>l\<close> bits.\<close>

definition lcp_field :: "nat \<Rightarrow> bool list \<Rightarrow> nat" where
  "lcp_field l bits = nat_of_bits (take l bits)"

section \<open>Example inputs\<close>

text \<open>A table of two buckets, both taken, for n-grams of order 1.\<close>

definition full_table :: "(nat \<times> nat) ngrams_hash_block" where
  "full_table =
     \<lparr> m_size = 2, m_num_bytes = 4, m_prober = (0, 0), m_data = [0, 1],
       m_block = [0 \<mapsto> \<lparr> ng_words = [1], ng_value = 1 \<rparr>,
                  1 \<mapsto> \<lparr> ng_words = [2], ng_value = 1 \<rparr>],
       m_index = [] \<rparr>"

text \<open>
  An empty table of three buckets for n-grams of order 1, the table after the n-gram
  \<open>[1]\<close> was inserted with hint 0, and the table after \<open>[1]\<close> was inserted once more
  with hint 1.
\<close>

definition empty_table :: "(nat \<times> nat) ngrams_hash_block" where
  "empty_table =
     \<lparr> m_size = 0, m_num_bytes = 4, m_prober = (0, 0),
       m_data = [invalid_ngram_id, invalid_ngram_id, invalid_ngram_id],
       m_block = Map.empty, m_index = [] \<rparr>"

definition one_entry_table :: "(nat \<times> nat) ngrams_hash_block" where
  "one_entry_table =
     \<lparr> m_size = 1, m_num_bytes = 4, m_prober = (0, 3),
       m_data = [0, invalid_ngram_id, invalid_ngram_id],
       m_block = [0 \<mapsto> \<lparr> ng_words = [1], ng_value = 1 \<rparr>],
       m_index = [] \<rparr>"

definition two_entry_table :: "(nat \<times> nat) ngrams_hash_block" where
  "two_entry_table =
     \<lparr> m_size = 2, m_num_bytes = 4, m_prober = (1, 3),
       m_data = [0, 1, invalid_ngram_id],
       m_block = [0 \<mapsto> \<lparr> ng_words = [1], ng_value = 1 \<rparr>,
                  1 \<mapsto> \<lparr> ng_words = [1], ng_value = 1 \<rparr>],
       m_index = [] \<rparr>"

text \<open>The n-grams of scenario S1, in insertion order, and a hash for them.\<close>

definition s1_keys :: "word_id list list" where
  "s1_keys = [[1, 2, 3], [1, 2, 4], [1, 2, 3], [5, 6, 7]]"

definition last_word_hash :: "word_id list \<Rightarrow> nat" where
  "last_word_hash key = unat (last key)"

text \<open>
  An accumulator of order 3 holding the n-grams of scenario S1, inserted in the order
  \<open>[5,6,7]\<close>, \<open>[1,2,4]\<close>, \<open>[1,2,3]\<close>, the last one counted twice.
\<close>

definition s1_rec_a :: ngram_pointer where
  "s1_rec_a = \<lparr> ng_words = [5, 6, 7], ng_value = 1 \<rparr>"

definition s1_rec_b :: ngram_pointer where
  "s1_rec_b = \<lparr> ng_words = [1, 2, 4], ng_value = 1 \<rparr>"

definition s1_rec_c :: ngram_pointer where
  "s1_rec_c = \<lparr> ng_words = [1, 2, 3], ng_value = 2 \<rparr>"


text \<open>
  An accumulator of order 3 with five buckets in use, under the hash \<open>last_word_hash\<close>:
  \<open>[1,2,3]\<close> was inserted first and counted twice, \<open>[1,2,4]\<close> second.
\<close>

definition counted_table :: "(nat \<times> nat) ngrams_hash_block" where
  "counted_table =
     \<lparr> m_size = 2, m_num_bytes = 12, m_prober = (4, 5),
       m_data = [invalid_ngram_id, invalid_ngram_id, invalid_ngram_id, 0, 1],
       m_block = [0 \<mapsto> \<lparr> ng_words = [1, 2, 3], ng_value = 2 \<rparr>,
                  1 \<mapsto> \<lparr> ng_words = [1, 2, 4], ng_value = 1 \<rparr>],
       m_index = [] \<rparr>"




text \<open>The run of scenario S1 in prefix order, with its statistics.\<close>

definition s1_run :: "ngram_pointer list" where
  "s1_run = [s1_rec_c, s1_rec_b, s1_rec_a]"

definition s1_stats :: ngrams_block_statistics where
  "s1_stats = \<lparr> max_word_id = 7, max_count = 2 \<rparr>"

text \<open>
  The variables of the writer's loop after the first record of the run of S1 has been
  written explicitly, and a run of one record.
\<close>

definition s1_state :: write_state where
  "s1_state =
     \<lparr> ws_os = [3, 2], ws_buffer = explicit_bits 3 3 2 s1_rec_c, ngrams_in_block = 1,
       written = 0, encoded = 0, prev_ptr = s1_rec_c \<rparr>"

section \<open>Properties of the accumulator\<close>

subsection \<open>Walking the probe chain\<close>

lemma occupied_other_prober [simp]:
  "occupied_other (b\<lparr> m_prober := s \<rparr>) key it = occupied_other b key it"
  by (auto simp: occupied_other_def buckets_def pointer_def split: option.splits)

lemma buckets_prober [simp]: "buckets (b\<lparr> m_prober := s \<rparr>) = buckets b"
  by (simp add: buckets_def)

lemma pointer_prober [simp]: "pointer (b\<lparr> m_prober := s \<rparr>) at = pointer b at"
  by (simp add: pointer_def)

lemma probe_state_Suc: "p_next P (probe_state P hint B k) = probe_state P hint B (Suc k)"
  by (simp add: probe_state_def)

lemma probe_walk_step:
  assumes "occupied_other b key it"
  shows "probe_walk P key start it b =
     (let b' = b\<lparr> m_prober := p_next P (m_prober b) \<rparr>; it' = p_deref P (m_prober b')
      in if it' = start then Some (False, invalid_ngram_id, b')
         else probe_walk P key start it' b')"
  using assms
  by (subst probe_walk.simps) (auto simp: occupied_other_def Let_def split: option.splits)

lemma probe_walk_empty:
  assumes "it < buckets b" and "m_data b ! it = invalid_ngram_id"
  shows "probe_walk P key start it b = Some (False, m_size b, insert_at key it b)"
  using assms by (subst probe_walk.simps) simp

lemma walk_full_cycle:
  assumes fc: "full_cycle P key hint b n" and k: "k < n"
  shows "probe_walk P key (probe_seq P hint (buckets b) 0) (probe_seq P hint (buckets b) k)
           (b\<lparr> m_prober := probe_state P hint (buckets b) k \<rparr>)
         = Some (False, invalid_ngram_id, b\<lparr> m_prober := probe_state P hint (buckets b) n \<rparr>)"
  using k
proof (induction "n - k" arbitrary: k)
  case 0
  then show ?case by simp
next
  case (Suc d)
  have occ: "occupied_other b key (probe_seq P hint (buckets b) k)"
    using fc Suc.prems by (simp add: full_cycle_def)
  show ?case
  proof (cases "Suc k = n")
    case True
    then have "probe_seq P hint (buckets b) (Suc k) = probe_seq P hint (buckets b) 0"
      using fc by (simp add: full_cycle_def)
    then show ?thesis
      using occ True
      by (simp add: probe_walk_step probe_state_Suc Let_def probe_seq_def)
  next
    case False
    then have lt: "Suc k < n" using Suc.prems by simp
    then have ne: "probe_seq P hint (buckets b) (Suc k) \<noteq> probe_seq P hint (buckets b) 0"
      using fc by (simp add: full_cycle_def)
    have "n - Suc k = d" using Suc.hyps(2) by simp
    then have IH: "probe_walk P key (probe_seq P hint (buckets b) 0)
           (probe_seq P hint (buckets b) (Suc k))
           (b\<lparr> m_prober := probe_state P hint (buckets b) (Suc k) \<rparr>)
         = Some (False, invalid_ngram_id, b\<lparr> m_prober := probe_state P hint (buckets b) n \<rparr>)"
      using Suc.hyps(1)[of "Suc k"] lt by simp
    show ?thesis
      using occ ne IH
      by (simp add: probe_walk_step probe_state_Suc Let_def probe_seq_def)
  qed
qed

lemma find_or_insert_full_cycle:
  assumes "full_cycle P key hint b n"
  shows "find_or_insert P key hint b =
           Some (False, invalid_ngram_id, b\<lparr> m_prober := probe_state P hint (buckets b) n \<rparr>)"
proof -
  have "0 < n" using assms by (simp add: full_cycle_def)
  from walk_full_cycle[OF assms this]
  show ?thesis
    by (simp add: find_or_insert_def Let_def probe_seq_def probe_state_def)
qed

lemma walk_reaches_empty:
  assumes re: "reaches_empty P key hint b j" and k: "k \<le> j"
  shows "probe_walk P key (probe_seq P hint (buckets b) 0) (probe_seq P hint (buckets b) k)
           (b\<lparr> m_prober := probe_state P hint (buckets b) k \<rparr>)
         = Some (False, m_size b, insert_at key (probe_seq P hint (buckets b) j)
                  (b\<lparr> m_prober := probe_state P hint (buckets b) j \<rparr>))"
  using k
proof (induction "j - k" arbitrary: k)
  case 0
  then have "k = j" by simp
  then show ?case
    using re by (simp add: probe_walk_empty reaches_empty_def buckets_def)
next
  case (Suc d)
  then have lt: "k < j" by simp
  have occ: "occupied_other b key (probe_seq P hint (buckets b) k)"
    using re lt by (simp add: reaches_empty_def)
  have ne: "probe_seq P hint (buckets b) (Suc k) \<noteq> probe_seq P hint (buckets b) 0"
    using re lt by (simp add: reaches_empty_def)
  have "j - Suc k = d" using Suc.hyps(2) by simp
  then have IH: "probe_walk P key (probe_seq P hint (buckets b) 0)
           (probe_seq P hint (buckets b) (Suc k))
           (b\<lparr> m_prober := probe_state P hint (buckets b) (Suc k) \<rparr>)
         = Some (False, m_size b, insert_at key (probe_seq P hint (buckets b) j)
                  (b\<lparr> m_prober := probe_state P hint (buckets b) j \<rparr>))"
    using Suc.hyps(1)[of "Suc k"] lt by simp
  show ?case
    using occ ne IH
    by (simp add: probe_walk_step probe_state_Suc Let_def probe_seq_def)
qed

lemma find_or_insert_reaches_empty:
  assumes "reaches_empty P key hint b j"
  shows "find_or_insert P key hint b =
           Some (False, m_size b, insert_at key (probe_seq P hint (buckets b) j)
                  (b\<lparr> m_prober := probe_state P hint (buckets b) j \<rparr>))"
  using walk_reaches_empty[OF assms, of 0]
  by (simp add: find_or_insert_def Let_def probe_seq_def probe_state_def)

subsection \<open>A full table\<close>

lemma full_table_cycle: "full_cycle linear_prober [3] 0 full_table 2"
  by (simp add: full_cycle_def probe_seq_def probe_state_def linear_prober_def full_table_def
      buckets_def occupied_other_def pointer_def equal_to_def invalid_ngram_id_def
      numeral_2_eq_2 less_Suc_eq)

text \<open>
  C7. When the probe walk of a \<open>find_or_insert\<close> call comes back to its starting bucket
  without having met an empty bucket or a matching entry, the call returns false with the
  sentinel id, and the size, the bucket table, the record store (all records and
  payloads), the index and the key width of the accumulator are as before; only the
  prober's own position has moved.
\<close>

theorem find_or_insert_table_full:
  assumes "full_cycle P key hint b n"
  shows "\<exists>b'. find_or_insert P key hint b = Some (False, invalid_ngram_id, b') \<and>
           m_size b' = m_size b \<and> m_block b' = m_block b \<and> m_data b' = m_data b \<and>
           m_index b' = m_index b \<and> m_num_bytes b' = m_num_bytes b"
  using find_or_insert_full_cycle[OF assms] by simp

theorem find_or_insert_table_full_witness:
  "full_cycle linear_prober [3] 0 full_table 2 \<and>
   (\<exists>b'. find_or_insert linear_prober [3] 0 full_table = Some (False, invalid_ngram_id, b') \<and>
      m_size b' = 2 \<and> m_block b' = m_block full_table \<and> m_data b' = [0, 1])"
proof -
  from find_or_insert_table_full[OF full_table_cycle]
  obtain b' where "find_or_insert linear_prober [3] 0 full_table = Some (False, invalid_ngram_id, b')"
    and "m_size b' = m_size full_table" and "m_block b' = m_block full_table"
    and "m_data b' = m_data full_table"
    by blast
  then show ?thesis
    using full_table_cycle by (auto simp: full_table_def)
qed

text \<open>
  C9. The boolean result does not tell a full table from a fresh insertion: a call whose
  walk comes back to its starting bucket returns false with the sentinel id, a call whose
  walk reaches an empty bucket returns false with the id it assigned (the size before the
  call), and the sentinel is the all-ones id \<open>2^64 - 1\<close>. The two outcomes differ in the
  returned id only.
\<close>

theorem find_or_insert_false_twice:
  "(full_cycle P key hint b n \<longrightarrow>
      (\<exists>b'. find_or_insert P key hint b = Some (False, invalid_ngram_id, b'))) \<and>
   (reaches_empty P key hint b j \<longrightarrow>
      (\<exists>b'. find_or_insert P key hint b = Some (False, m_size b, b') \<and>
             m_size b' = m_size b + 1)) \<and>
   unat invalid_ngram_id = 2 ^ 64 - 1"
  by (auto simp: find_or_insert_full_cycle find_or_insert_reaches_empty insert_at_def
      invalid_ngram_id_def unsigned_minus_1_eq_mask mask_eq_exp_minus_1)

lemma empty_table_reaches:
  "reaches_empty linear_prober [3] 0 empty_table 0"
  by (simp add: reaches_empty_def probe_seq_def probe_state_def linear_prober_def
      empty_table_def buckets_def)

theorem find_or_insert_false_twice_witness:
  "full_cycle linear_prober [3] 0 full_table 2 \<and>
   (\<exists>b'. find_or_insert linear_prober [3] 0 full_table = Some (False, invalid_ngram_id, b')) \<and>
   reaches_empty linear_prober [3] 0 empty_table 0 \<and>
   (\<exists>b'. find_or_insert linear_prober [3] 0 empty_table = Some (False, 0, b'))"
  using find_or_insert_false_twice[of linear_prober "[3]" 0 full_table 2 0]
    find_or_insert_false_twice[of linear_prober "[3]" 0 empty_table 0 0]
    full_table_cycle empty_table_reaches
  by (auto simp: empty_table_def)

subsection \<open>Finding a stored n-gram\<close>

lemma less_size_not_invalid: "at < (s :: 64 word) \<Longrightarrow> at \<noteq> invalid_ngram_id"
  using word_n1_ge[of s] by (auto simp: invalid_ngram_id_def)

lemma equal_to_same_length:
  assumes "length x = N" and "length y = N"
  shows "equal_to x y (N * 4) \<longleftrightarrow> x = y"
  using assms by (simp add: equal_to_def)

lemma hb_inv_bucket:
  assumes "hb_inv P h N b" and "i < buckets b" and "m_data b ! i \<noteq> invalid_ngram_id"
  shows "\<exists>p. pointer b (m_data b ! i) = Some p \<and> length (ng_words p) = N \<and>
             stored_at b (m_data b ! i) (ng_words p)"
proof -
  have lt: "m_data b ! i < m_size b"
    using assms by (simp add: hb_inv_def)
  then obtain p where "m_block b (m_data b ! i) = Some p" and "length (ng_words p) = N"
    using assms(1) by (auto simp: hb_inv_def)
  then show ?thesis
    using lt by (auto simp: pointer_def stored_at_def)
qed

lemma hb_inv_unique:
  assumes "hb_inv P h N b" and "stored_at b at1 key" and "stored_at b at2 key"
  shows "at1 = at2"
  using assms unfolding hb_inv_def by blast

lemma walk_finds:
  assumes inv: "hb_inv P h N b" and len: "length key = N"
    and st: "stored_at b at key"
    and ch: "chain_to P hint b j"
    and slot: "m_data b ! probe_seq P hint (buckets b) j = at"
    and k: "k \<le> j"
  shows "\<exists>s. probe_walk P key (probe_seq P hint (buckets b) 0) (probe_seq P hint (buckets b) k)
           (b\<lparr> m_prober := probe_state P hint (buckets b) k \<rparr>)
         = Some (True, at, b\<lparr> m_prober := s \<rparr>)"
  using k
proof (induction "j - k" arbitrary: k)
  case 0
  then have kj: "k = j" by simp
  let ?it = "probe_seq P hint (buckets b) j"
  have in_range: "?it < buckets b"
    using ch by (simp add: chain_to_def)
  have ne: "at \<noteq> invalid_ngram_id"
    using st less_size_not_invalid[of at "m_size b"] by (simp add: stored_at_def)
  obtain p where p: "pointer b at = Some p" "ng_words p = key"
    using st by (auto simp: stored_at_def pointer_def)
  have "equal_to (ng_words p) key (m_num_bytes b)"
    using p by (simp add: equal_to_def)
  then show ?case
    using kj in_range ne p slot
    by (subst probe_walk.simps) auto
next
  case (Suc d)
  then have lt: "k < j" by simp
  let ?it = "probe_seq P hint (buckets b) k"
  have in_range: "?it < buckets b"
    using ch lt by (simp add: chain_to_def)
  have taken: "m_data b ! ?it \<noteq> invalid_ngram_id"
    using ch lt by (simp add: chain_to_def)
  obtain p where p: "pointer b (m_data b ! ?it) = Some p" "length (ng_words p) = N"
    "stored_at b (m_data b ! ?it) (ng_words p)"
    using hb_inv_bucket[OF inv in_range taken] by blast
  have nb: "m_num_bytes b = N * 4"
    using inv by (simp add: hb_inv_def)
  show ?case
  proof (cases "ng_words p = key")
    case True
    then have "m_data b ! ?it = at"
      using hb_inv_unique[OF inv _ st] p(3) by simp
    moreover have "equal_to (ng_words p) key (m_num_bytes b)"
      using True by (simp add: equal_to_def)
    ultimately show ?thesis
      using in_range taken p(1)
      by (subst probe_walk.simps) auto
  next
    case False
    then have "\<not> equal_to (ng_words p) key (m_num_bytes b)"
      using equal_to_same_length[OF p(2) len] nb by simp
    then have occ: "occupied_other b key ?it"
      using in_range taken p(1) by (simp add: occupied_other_def)
    have ne: "probe_seq P hint (buckets b) (Suc k) \<noteq> probe_seq P hint (buckets b) 0"
      using ch lt by (simp add: chain_to_def)
    have "j - Suc k = d" using Suc.hyps(2) by simp
    then obtain s where "probe_walk P key (probe_seq P hint (buckets b) 0)
           (probe_seq P hint (buckets b) (Suc k))
           (b\<lparr> m_prober := probe_state P hint (buckets b) (Suc k) \<rparr>)
         = Some (True, at, b\<lparr> m_prober := s \<rparr>)"
      using Suc.hyps(1)[of "Suc k"] lt by auto
    then show ?thesis
      using occ ne
      by (auto simp: probe_walk_step probe_state_Suc Let_def probe_seq_def)
  qed
qed

lemma find_or_insert_finds:
  assumes inv: "hb_inv P h N b" and len: "length key = N" and st: "stored_at b at key"
  shows "\<exists>s. find_or_insert P key (h key) b = Some (True, at, b\<lparr> m_prober := s \<rparr>)"
proof -
  obtain p where p: "m_block b at = Some p" "ng_words p = key" and lt: "at < m_size b"
    using st by (auto simp: stored_at_def)
  obtain j where j: "chain_to P (h key) b j"
      "m_data b ! probe_seq P (h key) (buckets b) j = at"
    using inv lt p by (fastforce simp: hb_inv_def)
  from walk_finds[OF inv len st j, of 0]
  show ?thesis
    by (simp add: find_or_insert_def Let_def probe_seq_def probe_state_def)
qed

subsection \<open>Inserting a new n-gram\<close>

lemma unat_succ_64:
  assumes "unat (x :: 64 word) + 1 < 2 ^ 64"
  shows "unat (x + 1) = unat x + 1"
  using assms by (simp add: unat_word_ariths)

lemma word_less_succ_64:
  assumes "unat (x :: 64 word) + 1 < 2 ^ 64"
  shows "a < x + 1 \<longleftrightarrow> a < x \<or> a = x"
  using unat_succ_64[OF assms] by (auto simp: word_less_nat_alt word_unat_eq_iff)

lemma not_stored_reaches_empty:
  assumes inv: "hb_inv P h N b" and len: "length key = N"
    and fresh: "\<forall>at. \<not> stored_at b at key"
    and ch: "chain_to P hint b j"
    and slot: "m_data b ! probe_seq P hint (buckets b) j = invalid_ngram_id"
  shows "reaches_empty P key hint b j"
proof -
  have nb: "m_num_bytes b = N * 4"
    using inv by (simp add: hb_inv_def)
  have "occupied_other b key (probe_seq P hint (buckets b) k)" if "k < j" for k
  proof -
    let ?it = "probe_seq P hint (buckets b) k"
    have in_range: "?it < buckets b" and taken: "m_data b ! ?it \<noteq> invalid_ngram_id"
      using ch that by (simp_all add: chain_to_def)
    obtain p where p: "pointer b (m_data b ! ?it) = Some p" "length (ng_words p) = N"
      "stored_at b (m_data b ! ?it) (ng_words p)"
      using hb_inv_bucket[OF inv in_range taken] by blast
    have "ng_words p \<noteq> key"
      using p(3) fresh by auto
    then have "\<not> equal_to (ng_words p) key (m_num_bytes b)"
      using equal_to_same_length[OF p(2) len] nb by simp
    then show ?thesis
      using in_range taken p(1) by (simp add: occupied_other_def)
  qed
  then show ?thesis
    using ch slot by (simp add: reaches_empty_def chain_to_def)
qed

lemma stored_at_insert:
  assumes "unat (m_size b) + 1 < 2 ^ 64"
  shows "stored_at (insert_at key it (b\<lparr> m_prober := s \<rparr>)) at k \<longleftrightarrow>
           (at = m_size b \<and> k = key) \<or> stored_at b at k"
  using word_less_succ_64[OF assms, of at]
  by (auto simp: stored_at_def insert_at_def)

lemma chain_to_insert:
  assumes ch: "chain_to P hint b j" and it: "it < buckets b"
    and nz: "m_size b \<noteq> invalid_ngram_id"
  shows "chain_to P hint (insert_at key it (b\<lparr> m_prober := s \<rparr>)) j"
  using assms
  by (auto simp: chain_to_def insert_at_def buckets_def nth_list_update)

lemma hb_inv_insert:
  assumes inv: "hb_inv P h N b" and len: "length key = N"
    and fresh: "\<forall>at. \<not> stored_at b at key"
    and ch: "chain_to P (h key) b j"
    and slot: "m_data b ! probe_seq P (h key) (buckets b) j = invalid_ngram_id"
    and room: "unat (m_size b) + 1 < 2 ^ 64"
  shows "hb_inv P h N (insert_at key (probe_seq P (h key) (buckets b) j) (b\<lparr> m_prober := s \<rparr>))"
proof -
  let ?it = "probe_seq P (h key) (buckets b) j"
  let ?b' = "insert_at key ?it (b\<lparr> m_prober := s \<rparr>)"
  have it: "?it < buckets b"
    using ch by (simp add: chain_to_def)
  have it': "?it < length (m_data b)"
    using it by (simp add: buckets_def)
  have lt_succ: "m_size b < m_size b + 1"
    using word_less_succ_64[OF room, of "m_size b"] by simp
  have nz: "m_size b \<noteq> invalid_ngram_id"
    using lt_succ by (rule less_size_not_invalid)
  have bk: "buckets ?b' = buckets b"
    by (simp add: insert_at_def buckets_def)
  have sz: "m_size ?b' = m_size b + 1"
    by (simp add: insert_at_def)
  have dat: "m_data ?b' = (m_data b)[?it := m_size b]"
    by (simp add: insert_at_def)
  have blk: "m_block ?b' = (m_block b)(m_size b \<mapsto> \<lparr> ng_words = key, ng_value = 1 \<rparr>)"
    by (simp add: insert_at_def)
  have c1: "m_num_bytes ?b' = N * 4"
    using inv by (simp add: hb_inv_def insert_at_def)
  have c0: "buckets ?b' < 2 ^ 64"
    using inv by (simp add: hb_inv_def bk)
  have c2: "m_data ?b' ! i < m_size ?b'"
    if "i < buckets ?b'" "m_data ?b' ! i \<noteq> invalid_ngram_id" for i
  proof (cases "i = ?it")
    case True
    then show ?thesis
      using it' lt_succ by (simp add: dat sz)
  next
    case False
    then have "m_data ?b' ! i = m_data b ! i"
      by (simp add: dat)
    moreover have "m_data b ! i \<noteq> invalid_ngram_id \<longrightarrow> m_data b ! i < m_size b"
      using inv that(1) by (simp add: hb_inv_def bk)
    ultimately show ?thesis
      using that(2) word_less_succ_64[OF room] by (simp add: sz)
  qed
  have c3: "\<exists>p. m_block ?b' at = Some p \<and> length (ng_words p) = N \<and>
          (\<exists>j. chain_to P (h (ng_words p)) ?b' j \<and>
               m_data ?b' ! probe_seq P (h (ng_words p)) (buckets ?b') j = at)"
    if "at < m_size ?b'" for at
  proof (cases "at = m_size b")
    case True
    have "chain_to P (h key) ?b' j"
      using chain_to_insert[OF ch it nz] .
    moreover have "m_data ?b' ! ?it = m_size b"
      using it' by (simp add: dat)
    ultimately show ?thesis
      using True len by (auto simp: blk bk)
  next
    case False
    then have lt: "at < m_size b"
      using that word_less_succ_64[OF room, of at] by (simp add: sz)
    then obtain p j0 where p: "m_block b at = Some p" "length (ng_words p) = N"
      and j0: "chain_to P (h (ng_words p)) b j0"
        "m_data b ! probe_seq P (h (ng_words p)) (buckets b) j0 = at"
      using inv unfolding hb_inv_def by blast
    have "at \<noteq> invalid_ngram_id"
      using lt by (rule less_size_not_invalid)
    then have "probe_seq P (h (ng_words p)) (buckets b) j0 \<noteq> ?it"
      using j0(2) slot by auto
    then have "m_data ?b' ! probe_seq P (h (ng_words p)) (buckets b) j0 = at"
      using j0(2) by (simp add: dat)
    moreover have "chain_to P (h (ng_words p)) ?b' j0"
      using chain_to_insert[OF j0(1) it nz] .
    ultimately show ?thesis
      using False p by (auto simp: blk bk)
  qed
  have c4: "at1 = at2" if "stored_at ?b' at1 k" "stored_at ?b' at2 k" for at1 at2 k
    using that fresh hb_inv_unique[OF inv, of at1 k at2]
    by (auto simp: stored_at_insert[OF room])
  let ?S = "{i. i < buckets b \<and> m_data b ! i \<noteq> invalid_ngram_id}"
  have set_eq: "{i. i < buckets ?b' \<and> m_data ?b' ! i \<noteq> invalid_ngram_id} = insert ?it ?S"
    using it it' nz by (auto simp: bk dat nth_list_update)
  have "finite ?S"
    by simp
  moreover have "?it \<notin> ?S"
    using slot by simp
  ultimately have "card (insert ?it ?S) = Suc (card ?S)"
    by (rule card_insert_disjoint)
  then have "card {i. i < buckets ?b' \<and> m_data ?b' ! i \<noteq> invalid_ngram_id} = Suc (card ?S)"
    by (simp only: set_eq)
  then have c5: "card {i. i < buckets ?b' \<and> m_data ?b' ! i \<noteq> invalid_ngram_id}
          = unat (m_size ?b')"
    using inv unat_succ_64[OF room] by (simp add: hb_inv_def sz)
  show ?thesis
    unfolding hb_inv_def using c0 c1 c2 c3 c4 c5 by blast
qed

subsection \<open>The invariant: empty tables, sizes and payloads\<close>

lemma stored_at_prober [simp]: "stored_at (b\<lparr> m_prober := s \<rparr>) at key = stored_at b at key"
  by (simp add: stored_at_def)

lemma chain_to_prober [simp]: "chain_to P hint (b\<lparr> m_prober := s \<rparr>) j = chain_to P hint b j"
  by (simp add: chain_to_def)

lemma hb_inv_prober [simp]: "hb_inv P h N (b\<lparr> m_prober := s \<rparr>) = hb_inv P h N b"
  by (simp add: hb_inv_def)

text \<open>A table in which nothing is stored and every bucket is empty satisfies the invariant.\<close>

lemma hb_inv_empty:
  assumes "m_size b = 0" and "m_num_bytes b = N * 4" and "buckets b < 2 ^ 64"
    and "\<forall>i<buckets b. m_data b ! i = invalid_ngram_id"
  shows "hb_inv P h N b"
proof -
  have "{i. i < buckets b \<and> m_data b ! i \<noteq> invalid_ngram_id} = {}"
    using assms(4) by auto
  then have "card {i. i < buckets b \<and> m_data b ! i \<noteq> invalid_ngram_id} = unat (m_size b)"
    using assms(1) by simp
  then show ?thesis
    using assms unfolding hb_inv_def stored_at_def by simp
qed

text \<open>While a bucket is empty, the size can be incremented without wrapping around.\<close>

lemma hb_inv_room:
  assumes inv: "hb_inv P h N b" and i: "i < buckets b"
    and empty: "m_data b ! i = invalid_ngram_id"
  shows "unat (m_size b) + 1 < 2 ^ 64"
proof -
  let ?S = "{i. i < buckets b \<and> m_data b ! i \<noteq> invalid_ngram_id}"
  have "?S \<subseteq> {..<buckets b} - {i}"
    using empty by auto
  then have "card ?S \<le> card ({..<buckets b} - {i})"
    by (intro card_mono) simp_all
  also have "\<dots> = buckets b - 1"
    using i by simp
  finally have "card ?S < buckets b"
    using i by simp
  then have "unat (m_size b) < buckets b"
    using inv by (simp add: hb_inv_def)
  moreover have "buckets b < 2 ^ 64"
    using inv by (simp add: hb_inv_def)
  ultimately show ?thesis
    by simp
qed

lemma card_ids_below: "card {at :: 64 word. at < s} = unat s"
proof -
  have "{at :: 64 word. at < s} = of_nat ` {0..<unat s}"
  proof
    show "{at. at < s} \<subseteq> of_nat ` {0..<unat s}"
    proof
      fix at :: "64 word" assume "at \<in> {at. at < s}"
      then have "unat at \<in> {0..<unat s}"
        by (simp add: word_less_nat_alt)
      then have "(of_nat (unat at) :: 64 word) \<in> of_nat ` {0..<unat s}"
        by (rule imageI)
      then show "at \<in> of_nat ` {0..<unat s}"
        by simp
    qed
    show "of_nat ` {0..<unat s} \<subseteq> {at. at < s}"
    proof
      fix at :: "64 word" assume "at \<in> of_nat ` {0..<unat s}"
      then obtain n where n: "n < unat s" "at = of_nat n"
        by auto
      have "unat s < 2 ^ 64"
        using unsigned_less[of s] by simp
      then have "unat at = n"
        using n by (simp add: unat_of_nat)
      then show "at \<in> {at. at < s}"
        using n(1) by (simp add: word_less_nat_alt)
    qed
  qed
  moreover have "inj_on (of_nat :: nat \<Rightarrow> 64 word) {0..<unat s}"
  proof (rule inj_onI)
    fix x y assume x: "x \<in> {0..<unat s}" and y: "y \<in> {0..<unat s}"
      and eq: "(of_nat x :: 64 word) = of_nat y"
    have bound: "unat s < 2 ^ 64"
      using unsigned_less[of s] by simp
    have ux: "unat (of_nat x :: 64 word) = x" and uy: "unat (of_nat y :: 64 word) = y"
      using x y bound by (simp_all add: unat_of_nat)
    from eq have "unat (of_nat x :: 64 word) = unat (of_nat y :: 64 word)"
      by (rule arg_cong)
    then show "x = y"
      by (simp only: ux uy)
  qed
  ultimately show ?thesis
    by (simp add: card_image)
qed

text \<open>Under the invariant the size is the number of n-grams stored.\<close>

lemma hb_inv_size:
  assumes inv: "hb_inv P h N b"
  shows "unat (m_size b) = card (stored_ngrams b)"
proof -
  let ?f = "\<lambda>at. ng_words (the (m_block b at))"
  have rec: "\<exists>p. m_block b at = Some p" if "at < m_size b" for at
    using inv that unfolding hb_inv_def by blast
  have st: "stored_at b at (?f at)" if "at < m_size b" for at
    using rec[OF that] that by (auto simp: stored_at_def)
  have img: "stored_ngrams b = ?f ` {at. at < m_size b}"
  proof
    show "stored_ngrams b \<subseteq> ?f ` {at. at < m_size b}"
    proof
      fix key assume "key \<in> stored_ngrams b"
      then obtain at p where "at < m_size b" "m_block b at = Some p" "ng_words p = key"
        by (auto simp: stored_ngrams_def stored_at_def)
      then have "key = ?f at" "at \<in> {at. at < m_size b}"
        by simp_all
      then show "key \<in> ?f ` {at. at < m_size b}"
        by (rule image_eqI)
    qed
    show "?f ` {at. at < m_size b} \<subseteq> stored_ngrams b"
      using st by (auto simp: stored_ngrams_def)
  qed
  have "inj_on ?f {at. at < m_size b}"
  proof (rule inj_onI)
    fix x y assume "x \<in> {at. at < m_size b}" "y \<in> {at. at < m_size b}" and eq: "?f x = ?f y"
    then have "stored_at b x (?f x)" "stored_at b y (?f x)"
      using st[of x] st[of y] by simp_all
    then show "x = y"
      using hb_inv_unique[OF inv] by blast
  qed
  then have "card (?f ` {at. at < m_size b}) = card {at. at < m_size b}"
    by (rule card_image)
  then show ?thesis
    by (simp add: img card_ids_below)
qed

text \<open>A write to a payload keeps the invariant, the size and the stored n-grams.\<close>

lemma write_value_inv:
  assumes inv: "hb_inv P h N b" and w: "write_value b at x = Some b'"
  shows "hb_inv P h N b'" and "m_size b' = m_size b" and "stored_ngrams b' = stored_ngrams b"
proof -
  obtain p where lt: "at < m_size b" and p: "m_block b at = Some p"
    and b': "b' = b\<lparr> m_block := (m_block b)(at \<mapsto> p\<lparr> ng_value := x \<rparr>) \<rparr>"
    using w by (auto simp: write_value_def split: if_splits option.splits)
  have st: "stored_at b' a k \<longleftrightarrow> stored_at b a k" for a k
    using p by (auto simp: stored_at_def b')
  have ch: "chain_to P hint b' j \<longleftrightarrow> chain_to P hint b j" for hint j
    by (simp add: chain_to_def b' buckets_def)
  show "m_size b' = m_size b"
    by (simp add: b')
  show "stored_ngrams b' = stored_ngrams b"
    by (simp add: stored_ngrams_def st)
  have c3: "\<exists>q. m_block b' a = Some q \<and> length (ng_words q) = N \<and>
          (\<exists>j. chain_to P (h (ng_words q)) b' j \<and>
               m_data b' ! probe_seq P (h (ng_words q)) (buckets b') j = a)"
    if "a < m_size b'" for a
  proof -
    have "a < m_size b"
      using that by (simp add: b')
    then obtain q j where q: "m_block b a = Some q" "length (ng_words q) = N"
      "chain_to P (h (ng_words q)) b j"
      "m_data b ! probe_seq P (h (ng_words q)) (buckets b) j = a"
      using inv unfolding hb_inv_def by blast
    show ?thesis
    proof (cases "a = at")
      case True
      then have "q = p"
        using p q(1) by simp
      then have "m_block b' a = Some (p\<lparr> ng_value := x \<rparr>)"
        "chain_to P (h (ng_words (p\<lparr> ng_value := x \<rparr>))) b' j"
        "m_data b' ! probe_seq P (h (ng_words (p\<lparr> ng_value := x \<rparr>))) (buckets b') j = a"
        "length (ng_words (p\<lparr> ng_value := x \<rparr>)) = N"
        using True q ch by (simp_all add: b' buckets_def)
      then show ?thesis
        by blast
    next
      case False
      then have "m_block b' a = Some q"
        "chain_to P (h (ng_words q)) b' j"
        "m_data b' ! probe_seq P (h (ng_words q)) (buckets b') j = a"
        using q ch by (simp_all add: b' buckets_def)
      then show ?thesis
        using q(2) by blast
    qed
  qed
  have rest: "m_num_bytes b' = N * 4" "buckets b' < 2 ^ 64"
    "\<forall>i<buckets b'. m_data b' ! i \<noteq> invalid_ngram_id \<longrightarrow> m_data b' ! i < m_size b'"
    "card {i. i < buckets b' \<and> m_data b' ! i \<noteq> invalid_ngram_id} = unat (m_size b')"
    using inv by (simp_all add: hb_inv_def b' buckets_def)
  have uniq: "\<forall>at1 at2 key. stored_at b' at1 key \<and> stored_at b' at2 key \<longrightarrow> at1 = at2"
    using hb_inv_unique[OF inv] by (auto simp: st)
  show "hb_inv P h N b'"
    unfolding hb_inv_def using rest c3 uniq by blast
qed

subsection \<open>The linear prober\<close>

lemma linear_probe_state:
  "probe_state linear_prober hint B k = ((hint + k) mod B, B)"
proof (induction k)
  case 0
  then show ?case
    by (simp add: probe_state_def linear_prober_def)
next
  case (Suc k)
  have "probe_state linear_prober hint B (Suc k)
          = p_next linear_prober (probe_state linear_prober hint B k)"
    by (simp add: probe_state_def)
  then show ?case
    using Suc by (simp add: linear_prober_def mod_Suc_eq)
qed

lemma linear_probe_seq: "probe_seq linear_prober hint B k = (hint + k) mod B"
  unfolding probe_seq_def linear_probe_state by (simp add: linear_prober_def)


subsection \<open>Sorting\<close>









lemma unat_index_id: "n < 2 ^ 64 \<Longrightarrow> unat (of_nat n :: 64 word) = n"
  by (simp add: unat_of_nat)



lemma unat_lt_64: "unat (x :: 64 word) < 2 ^ 64"
  using unsigned_less[of x] by simp







subsection \<open>The radix build\<close>







lemma upt_3: "[0..<3] = [0, 1, 2]"
  by code_simp


lemma word_less_2: "(at :: 64 word) < 2 \<longleftrightarrow> at = 0 \<or> at = 1"
  by unat_arith


subsection \<open>Sort totality\<close>









lemma s1_cmp:
  "cmp_compare (prefix_order 3) s1_rec_a s1_rec_a = 0"
  "cmp_compare (prefix_order 3) s1_rec_b s1_rec_b = 0"
  "cmp_compare (prefix_order 3) s1_rec_c s1_rec_c = 0"
  "cmp_compare (prefix_order 3) s1_rec_a s1_rec_b = 1"
  "cmp_compare (prefix_order 3) s1_rec_a s1_rec_c = 1"
  "cmp_compare (prefix_order 3) s1_rec_b s1_rec_c = 1"
  "cmp_compare (prefix_order 3) s1_rec_b s1_rec_a = - 1"
  "cmp_compare (prefix_order 3) s1_rec_c s1_rec_a = - 1"
  "cmp_compare (prefix_order 3) s1_rec_c s1_rec_b = - 1"
  by (simp_all add: prefix_order_def compare_along_def word_at_def s1_rec_a_def s1_rec_b_def
      s1_rec_c_def upt_3)






subsection \<open>The contract of \<open>find_or_insert\<close>\<close>

text \<open>
  C4, as stated, fails: the call looks for the n-gram along the probe walk of the hint it
  is given, so an n-gram stored under one hint is not found under another. Here \<open>[1]\<close> is
  inserted with hint 0 and gets id 0; the call with the same n-gram and hint 1 does not
  return id 0 with ``existed'' but stores \<open>[1]\<close> again under id 1.
\<close>

theorem find_or_insert_other_hint_counterexample:
  "find_or_insert linear_prober [1] 0 empty_table = Some (False, 0, one_entry_table) \<and>
   find_or_insert linear_prober [1] 1 one_entry_table = Some (False, 1, two_entry_table) \<and>
   m_size two_entry_table = 2 \<and>
   m_block two_entry_table 0 = Some \<lparr> ng_words = [1], ng_value = 1 \<rparr> \<and>
   m_block two_entry_table 1 = Some \<lparr> ng_words = [1], ng_value = 1 \<rparr>"
proof -
  let ?b0 = "empty_table"
  have "reaches_empty linear_prober [1] 0 ?b0 0"
    by (simp add: reaches_empty_def linear_probe_seq empty_table_def buckets_def)
  then have "find_or_insert linear_prober [1] 0 ?b0
     = Some (False, m_size ?b0, insert_at [1] (probe_seq linear_prober 0 (buckets ?b0) 0)
                  (?b0\<lparr> m_prober := probe_state linear_prober 0 (buckets ?b0) 0 \<rparr>))"
    by (rule find_or_insert_reaches_empty)
  moreover have "insert_at [1] (probe_seq linear_prober 0 (buckets ?b0) 0)
                  (?b0\<lparr> m_prober := probe_state linear_prober 0 (buckets ?b0) 0 \<rparr>)
                 = one_entry_table"
    by (simp add: insert_at_def empty_table_def one_entry_table_def buckets_def
        linear_probe_seq linear_probe_state)
  moreover have "m_size ?b0 = 0"
    by (simp add: empty_table_def)
  ultimately have first: "find_or_insert linear_prober [1] 0 ?b0
     = Some (False, 0, one_entry_table)"
    by simp
  let ?b1 = "one_entry_table"
  have "reaches_empty linear_prober [1] 1 ?b1 0"
    by (simp add: reaches_empty_def linear_probe_seq one_entry_table_def buckets_def)
  then have "find_or_insert linear_prober [1] 1 ?b1
     = Some (False, m_size ?b1, insert_at [1] (probe_seq linear_prober 1 (buckets ?b1) 0)
                  (?b1\<lparr> m_prober := probe_state linear_prober 1 (buckets ?b1) 0 \<rparr>))"
    by (rule find_or_insert_reaches_empty)
  moreover have "insert_at [1] (probe_seq linear_prober 1 (buckets ?b1) 0)
                  (?b1\<lparr> m_prober := probe_state linear_prober 1 (buckets ?b1) 0 \<rparr>)
                 = two_entry_table"
    by (simp add: insert_at_def one_entry_table_def two_entry_table_def buckets_def
        linear_probe_seq linear_probe_state)
  moreover have "m_size ?b1 = 1"
    by (simp add: one_entry_table_def)
  ultimately have second: "find_or_insert linear_prober [1] 1 one_entry_table
     = Some (False, 1, two_entry_table)"
    by simp
  show ?thesis
    using first second by (simp add: two_entry_table_def)
qed

text \<open>
  C4, amended: let every call pass as hint the same function \<open>h\<close> of its n-gram. An
  accumulator built by such calls, with any writes to payloads in between, satisfies
  the invariant \<open>hb_inv\<close> (lemmas \<open>hb_inv_empty\<close>, \<open>write_value_inv\<close> and the last part
  of this theorem), under which, for any prober and any payloads:
  the size is the number of distinct n-grams stored;
  a call with an n-gram that is stored under an id returns that id with ``existed'' and
  changes nothing but the prober's own position;
  and a call with an n-gram that is not stored, whose probe walk reaches a free bucket,
  returns ``not existed'' with the id equal to the size before the call, increments the
  size by one, writes the record with payload 1 under that id and leaves every other
  record as it was, so that the n-gram at id \<open>k\<close> is the \<open>(k+1)\<close>-th distinct insertion;
  the invariant holds again afterwards.
\<close>

theorem find_or_insert_contract:
  assumes "hb_inv P h N b" and "length key = N"
  shows "unat (m_size b) = card (stored_ngrams b) \<and>
    (stored_at b at key \<longrightarrow>
       (\<exists>s. find_or_insert P key (h key) b = Some (True, at, b\<lparr> m_prober := s \<rparr>))) \<and>
    (key \<notin> stored_ngrams b \<and> chain_to P (h key) b j \<and>
     m_data b ! probe_seq P (h key) (buckets b) j = invalid_ngram_id \<longrightarrow>
       (\<exists>b'. find_or_insert P key (h key) b = Some (False, m_size b, b') \<and>
          m_size b' = m_size b + 1 \<and> unat (m_size b') = unat (m_size b) + 1 \<and>
          m_block b' = (m_block b)(m_size b \<mapsto> \<lparr> ng_words = key, ng_value = 1 \<rparr>) \<and>
          stored_ngrams b' = insert key (stored_ngrams b) \<and>
          hb_inv P h N b'))"
proof (intro conjI impI)
  show "unat (m_size b) = card (stored_ngrams b)"
    using assms(1) by (rule hb_inv_size)
next
  assume "stored_at b at key"
  then show "\<exists>s. find_or_insert P key (h key) b = Some (True, at, b\<lparr> m_prober := s \<rparr>)"
    using find_or_insert_finds[OF assms] by simp
next
  assume a: "key \<notin> stored_ngrams b \<and> chain_to P (h key) b j \<and>
     m_data b ! probe_seq P (h key) (buckets b) j = invalid_ngram_id"
  then have fresh: "\<forall>at. \<not> stored_at b at key"
    and ch: "chain_to P (h key) b j"
    and slot: "m_data b ! probe_seq P (h key) (buckets b) j = invalid_ngram_id"
    by (simp_all add: stored_ngrams_def)
  let ?it = "probe_seq P (h key) (buckets b) j"
  let ?s = "probe_state P (h key) (buckets b) j"
  let ?b' = "insert_at key ?it (b\<lparr> m_prober := ?s \<rparr>)"
  have it: "?it < buckets b"
    using ch by (simp add: chain_to_def)
  have room: "unat (m_size b) + 1 < 2 ^ 64"
    using hb_inv_room[OF assms(1) it slot] .
  have "reaches_empty P key (h key) b j"
    using not_stored_reaches_empty[OF assms fresh ch slot] .
  then have res: "find_or_insert P key (h key) b = Some (False, m_size b, ?b')"
    by (rule find_or_insert_reaches_empty)
  have inv': "hb_inv P h N ?b'"
    using hb_inv_insert[OF assms fresh ch slot room] .
  have sz: "m_size ?b' = m_size b + 1"
    and blk: "m_block ?b' = (m_block b)(m_size b \<mapsto> \<lparr> ng_words = key, ng_value = 1 \<rparr>)"
    by (simp_all add: insert_at_def)
  have usz: "unat (m_size ?b') = unat (m_size b) + 1"
    using unat_succ_64[OF room] by (simp add: sz)
  have "stored_ngrams ?b' = insert key (stored_ngrams b)"
    by (auto simp: stored_ngrams_def stored_at_insert[OF room])
  then show "\<exists>b'. find_or_insert P key (h key) b = Some (False, m_size b, b') \<and>
          m_size b' = m_size b + 1 \<and> unat (m_size b') = unat (m_size b) + 1 \<and>
          m_block b' = (m_block b)(m_size b \<mapsto> \<lparr> ng_words = key, ng_value = 1 \<rparr>) \<and>
          stored_ngrams b' = insert key (stored_ngrams b) \<and>
          hb_inv P h N b'"
    using res inv' sz blk usz by blast
qed

lemma counted_table_stored:
  "stored_at counted_table at key \<longleftrightarrow>
     (at = 0 \<and> key = [1, 2, 3]) \<or> (at = 1 \<and> key = [1, 2, 4])"
proof -
  have sz: "m_size counted_table = 2"
    and b0: "m_block counted_table 0 = Some \<lparr> ng_words = [1, 2, 3], ng_value = 2 \<rparr>"
    and b1: "m_block counted_table 1 = Some \<lparr> ng_words = [1, 2, 4], ng_value = 1 \<rparr>"
    by (simp_all add: counted_table_def)
  show ?thesis
    unfolding stored_at_def sz word_less_2 using b0 b1 by auto
qed

lemma counted_table_taken:
  "{i. i < buckets counted_table \<and> m_data counted_table ! i \<noteq> invalid_ngram_id} = {3, 4}"
proof (intro set_eqI iffI)
  fix i assume "i \<in> {i. i < buckets counted_table \<and> m_data counted_table ! i \<noteq> invalid_ngram_id}"
  then have i5: "i < 5" and ne: "m_data counted_table ! i \<noteq> invalid_ngram_id"
    by (simp_all add: buckets_def counted_table_def)
  from i5 consider "i = 0" | "i = 1" | "i = 2" | "i = 3" | "i = 4"
    by linarith
  then show "i \<in> {3, 4}"
    using ne by cases (simp_all add: counted_table_def)
next
  fix i :: nat assume "i \<in> {3, 4}"
  then consider "i = 3" | "i = 4"
    by auto
  then show "i \<in> {i. i < buckets counted_table \<and> m_data counted_table ! i \<noteq> invalid_ngram_id}"
    by cases (simp_all add: counted_table_def buckets_def invalid_ngram_id_def)
qed

lemma counted_table_inv: "hb_inv linear_prober last_word_hash 3 counted_table"
proof -
  have bk: "buckets counted_table = 5"
    by (simp add: counted_table_def buckets_def)
  have c2: "\<forall>i<buckets counted_table. m_data counted_table ! i \<noteq> invalid_ngram_id
      \<longrightarrow> m_data counted_table ! i < m_size counted_table"
  proof (intro allI impI)
    fix i assume "i < buckets counted_table" "m_data counted_table ! i \<noteq> invalid_ngram_id"
    then have "i \<in> {3, 4}"
      using counted_table_taken by blast
    then show "m_data counted_table ! i < m_size counted_table"
      by (auto simp: counted_table_def)
  qed
  have ch0: "chain_to linear_prober 3 counted_table 0" "chain_to linear_prober 4 counted_table 0"
    by (simp_all add: chain_to_def linear_probe_seq bk)
  have c3: "\<forall>at<m_size counted_table. \<exists>p. m_block counted_table at = Some p \<and>
      length (ng_words p) = 3 \<and>
      (\<exists>j. chain_to linear_prober (last_word_hash (ng_words p)) counted_table j \<and>
           m_data counted_table
             ! probe_seq linear_prober (last_word_hash (ng_words p)) (buckets counted_table) j
           = at)"
  proof (intro allI impI)
    fix at assume "at < m_size counted_table"
    then consider "at = 0" | "at = 1"
      by (auto simp: counted_table_def word_less_2)
    then show "\<exists>p. m_block counted_table at = Some p \<and> length (ng_words p) = 3 \<and>
      (\<exists>j. chain_to linear_prober (last_word_hash (ng_words p)) counted_table j \<and>
           m_data counted_table
             ! probe_seq linear_prober (last_word_hash (ng_words p)) (buckets counted_table) j
           = at)"
    proof cases
      case 1
      have "m_block counted_table at = Some \<lparr> ng_words = [1, 2, 3], ng_value = 2 \<rparr>"
        "m_data counted_table ! probe_seq linear_prober 3 (buckets counted_table) 0 = at"
        using 1 by (simp_all add: counted_table_def linear_probe_seq buckets_def)
      then show ?thesis
        using ch0(1) by (auto simp: last_word_hash_def)
    next
      case 2
      have "m_block counted_table at = Some \<lparr> ng_words = [1, 2, 4], ng_value = 1 \<rparr>"
        "m_data counted_table ! probe_seq linear_prober 4 (buckets counted_table) 0 = at"
        using 2 by (simp_all add: counted_table_def linear_probe_seq buckets_def)
      then show ?thesis
        using ch0(2) by (auto simp: last_word_hash_def)
    qed
  qed
  have c4: "\<forall>at1 at2 key. stored_at counted_table at1 key \<and> stored_at counted_table at2 key
      \<longrightarrow> at1 = at2"
    by (auto simp: counted_table_stored)
  have c5: "card {i. i < buckets counted_table \<and> m_data counted_table ! i \<noteq> invalid_ngram_id}
      = unat (m_size counted_table)"
    by (simp add: counted_table_taken) (simp add: counted_table_def)
  have c1: "m_num_bytes counted_table = 3 * 4" "buckets counted_table < 2 ^ 64"
    by (simp_all add: bk) (simp add: counted_table_def)
  show ?thesis
    unfolding hb_inv_def using c1 c2 c3 c4 c5 by blast
qed

theorem find_or_insert_contract_witness:
  "hb_inv linear_prober last_word_hash 3 counted_table \<and>
   unat (m_size counted_table) = 2 \<and> card (stored_ngrams counted_table) = 2 \<and>
   stored_at counted_table 0 [1, 2, 3] \<and>
   m_block counted_table 0 = Some \<lparr> ng_words = [1, 2, 3], ng_value = 2 \<rparr> \<and>
   (\<exists>s. find_or_insert linear_prober [1, 2, 3] (last_word_hash [1, 2, 3]) counted_table
           = Some (True, 0, counted_table\<lparr> m_prober := s \<rparr>)) \<and>
   [5, 6, 9] \<notin> stored_ngrams counted_table \<and>
   chain_to linear_prober (last_word_hash [5, 6, 9]) counted_table 1 \<and>
   probe_seq linear_prober (last_word_hash [5, 6, 9]) (buckets counted_table) 1 = 0 \<and>
   (\<exists>b'. find_or_insert linear_prober [5, 6, 9] (last_word_hash [5, 6, 9]) counted_table
            = Some (False, 2, b') \<and>
      m_size b' = 3 \<and> m_block b' 2 = Some \<lparr> ng_words = [5, 6, 9], ng_value = 1 \<rparr> \<and>
      m_block b' 0 = Some \<lparr> ng_words = [1, 2, 3], ng_value = 2 \<rparr> \<and>
      hb_inv linear_prober last_word_hash 3 b')"
proof -
  have bk: "buckets counted_table = 5"
    by (simp add: counted_table_def buckets_def)
  have st: "stored_at counted_table 0 [1, 2, 3]"
    by (simp add: counted_table_stored)
  have fresh: "[5, 6, 9] \<notin> stored_ngrams counted_table"
    by (simp add: stored_ngrams_def counted_table_stored)
  have h9: "last_word_hash [5, 6, 9] = 9"
    by (simp add: last_word_hash_def)
  have d4: "m_data counted_table ! 4 \<noteq> invalid_ngram_id"
    by (simp add: counted_table_def invalid_ngram_id_def)
  have ch: "chain_to linear_prober (last_word_hash [5, 6, 9]) counted_table 1"
    unfolding chain_to_def linear_probe_seq bk h9
  proof (intro conjI allI impI)
    fix k :: nat assume "k \<le> 1"
    then show "(9 + k) mod 5 < 5"
      by simp
  next
    fix k :: nat assume "k < 1"
    then have "k = 0"
      by simp
    then show "m_data counted_table ! ((9 + k) mod 5) \<noteq> invalid_ngram_id"
      using d4 by simp
  next
    fix k :: nat assume "k \<le> 1" "0 < k"
    then have "k = 1"
      by simp
    then show "(9 + k) mod 5 \<noteq> (9 + 0) mod 5"
      by simp
  qed
  have seq: "probe_seq linear_prober (last_word_hash [5, 6, 9]) (buckets counted_table) 1 = 0"
    by (simp add: linear_probe_seq bk h9)
  have slot: "m_data counted_table
      ! probe_seq linear_prober (last_word_hash [5, 6, 9]) (buckets counted_table) 1
      = invalid_ngram_id"
    by (simp only: seq) (simp add: counted_table_def)
  have len: "length [1, 2, 3 :: word_id] = 3" "length [5, 6, 9 :: word_id] = 3"
    by simp_all
  note found = find_or_insert_contract[OF counted_table_inv len(1), of 0 0]
  note new = find_or_insert_contract[OF counted_table_inv len(2), of 0 1]
  have size: "unat (m_size counted_table) = 2"
    by (simp add: counted_table_def)
  then have card: "card (stored_ngrams counted_table) = 2"
    using found by simp
  obtain s where f: "find_or_insert linear_prober [1, 2, 3] (last_word_hash [1, 2, 3])
      counted_table = Some (True, 0, counted_table\<lparr> m_prober := s \<rparr>)"
    using found st by blast
  obtain b' where n: "find_or_insert linear_prober [5, 6, 9] (last_word_hash [5, 6, 9])
        counted_table = Some (False, m_size counted_table, b')"
      "m_size b' = m_size counted_table + 1"
      "m_block b' = (m_block counted_table)(m_size counted_table
           \<mapsto> \<lparr> ng_words = [5, 6, 9], ng_value = 1 \<rparr>)"
      "hb_inv linear_prober last_word_hash 3 b'"
    using new fresh ch slot by blast
  have msz: "m_size counted_table = 2"
    by (simp add: counted_table_def)
  have r1: "find_or_insert linear_prober [5, 6, 9] (last_word_hash [5, 6, 9]) counted_table
          = Some (False, 2, b')"
    using n(1) by (simp only: msz)
  have r2: "m_size b' = 3"
    using n(2) by (simp add: msz)
  have r3: "m_block b' 2 = Some \<lparr> ng_words = [5, 6, 9], ng_value = 1 \<rparr>"
    using n(3) by (simp add: msz)
  have r4: "m_block b' 0 = Some \<lparr> ng_words = [1, 2, 3], ng_value = 2 \<rparr>"
    using n(3) by (simp add: msz) (simp add: counted_table_def)
  have r5: "m_block counted_table 0 = Some \<lparr> ng_words = [1, 2, 3], ng_value = 2 \<rparr>"
    by (simp add: counted_table_def)
  have ex: "\<exists>b'. find_or_insert linear_prober [5, 6, 9] (last_word_hash [5, 6, 9])
          counted_table = Some (False, 2, b') \<and>
      m_size b' = 3 \<and> m_block b' 2 = Some \<lparr> ng_words = [5, 6, 9], ng_value = 1 \<rparr> \<and>
      m_block b' 0 = Some \<lparr> ng_words = [1, 2, 3], ng_value = 2 \<rparr> \<and>
      hb_inv linear_prober last_word_hash 3 b'"
    using r1 r2 r3 r4 n(4) by blast
  have ex2: "\<exists>s. find_or_insert linear_prober [1, 2, 3] (last_word_hash [1, 2, 3])
      counted_table = Some (True, 0, counted_table\<lparr> m_prober := s \<rparr>)"
    using f by blast
  show ?thesis
    using counted_table_inv size card st r5 ex2 fresh ch seq ex
    by (intro conjI)
qed

section \<open>Properties of the block codec\<close>

subsection \<open>Bits and bytes\<close>

lemma length_bits_of [simp]: "length (bits_of x len) = len"
  by (induction len arbitrary: x) auto

lemma nat_of_bits_bits_of: "nat_of_bits (bits_of x len) = x mod 2 ^ len"
proof (induction len arbitrary: x)
  case 0
  then show ?case by simp
next
  case (Suc len)
  have "x mod (2 * 2 ^ len) = x mod 2 + 2 * ((x div 2) mod 2 ^ len)"
    by (simp add: mod_mult2_eq)
  then show ?case
    using Suc by (auto simp: odd_iff_mod_2_eq_one)
qed

lemma nat_of_bits_less: "nat_of_bits bs < 2 ^ length bs"
  by (induction bs) auto

lemma bits_of_zero: "bits_of 0 len = replicate len False"
  by (induction len) auto

lemma bits_of_nat_of_bits: "bits_of (nat_of_bits bs) (length bs + k) = bs @ replicate k False"
  by (induction bs) (auto simp: bits_of_zero)

lemma nat_of_bits_append:
  "nat_of_bits (xs @ ys) = nat_of_bits xs + 2 ^ length xs * nat_of_bits ys"
  by (induction xs) (auto simp: algebra_simps)

lemma length_byte_chunks [simp]: "length (byte_chunks k bs) = k"
  by (induction k arbitrary: bs) auto

lemma byte_of_bits:
  "bits_of (unat (of_nat (nat_of_bits (take 8 bs)) :: byte)) 8 = take 8 (bs @ replicate 8 False)"
proof -
  let ?xs = "take 8 bs"
  have "nat_of_bits ?xs < 2 ^ length ?xs"
    by (rule nat_of_bits_less)
  also have "\<dots> \<le> 2 ^ 8"
    by (rule power_increasing) simp_all
  finally have "nat_of_bits ?xs < 256"
    by simp
  then have u: "unat (of_nat (nat_of_bits ?xs) :: byte) = nat_of_bits ?xs"
    by (simp add: unat_of_nat)
  have "bits_of (nat_of_bits ?xs) (length ?xs + (8 - length ?xs)) = ?xs @ replicate (8 - length ?xs) False"
    by (rule bits_of_nat_of_bits)
  moreover have "length ?xs + (8 - length ?xs) = 8"
    by simp
  ultimately have "bits_of (nat_of_bits ?xs) 8 = ?xs @ replicate (8 - length ?xs) False"
    by simp
  also have "\<dots> = take 8 (bs @ replicate 8 False)"
    by (simp add: min_def)
  finally show ?thesis
    using u by simp
qed

lemma bits_of_bytes_chunks:
  "bits_of_bytes (byte_chunks k bs) = take (8 * k) (bs @ replicate (8 * k) False)"
proof (induction k arbitrary: bs)
  case 0
  then show ?case by (simp add: bits_of_bytes_def)
next
  case (Suc k)
  have step: "bits_of_bytes (byte_chunks (Suc k) bs)
      = take 8 (bs @ replicate 8 False) @ bits_of_bytes (byte_chunks k (drop 8 bs))"
    using byte_of_bits[of bs] by (simp add: bits_of_bytes_def)
  have "take 8 (bs @ replicate 8 False) @ take (8 * k) (drop 8 bs @ replicate (8 * k) False)
      = take (8 * Suc k) (bs @ replicate (8 * Suc k) False)"
  proof (cases "8 \<le> length bs")
    case True
    let ?X = "bs @ replicate (8 * Suc k) False"
    have "take (8 + 8 * k) ?X = take 8 ?X @ take (8 * k) (drop 8 ?X)"
      by (rule take_add)
    moreover have "take 8 ?X = take 8 bs" "take 8 (bs @ replicate 8 False) = take 8 bs"
      using True by simp_all
    moreover have "take (8 * k) (drop 8 ?X) = take (8 * k) (drop 8 bs @ replicate (8 * k) False)"
      using True by simp
    ultimately show ?thesis
      by simp
  next
    case False
    then have len: "length bs < 8"
      by simp
    have "bs @ replicate (8 * Suc k) False
        = (bs @ replicate (8 - length bs) False) @ replicate (8 * k + length bs) False"
      using len by (simp add: replicate_add[symmetric])
    then show ?thesis
      using len by (simp add: min_def replicate_add[symmetric])
  qed
  then show ?case
    using Suc step by simp
qed

lemma bits_of_bytes_chunks_fit:
  assumes "length bs \<le> 8 * k"
  shows "bits_of_bytes (byte_chunks k bs) = bs @ replicate (8 * k - length bs) False"
  using assms by (simp add: bits_of_bytes_chunks)

lemma load_save_pod64: "load_pod64 (save_pod64 x) = x"
proof -
  have "bits_of_bytes (byte_chunks 8 (bits_of (unat x) 64)) = bits_of (unat x) 64"
    using bits_of_bytes_chunks_fit[of "bits_of (unat x) 64" 8] by simp
  moreover have "unat x mod 2 ^ 64 = unat x"
    using unat_lt_64[of x] by simp
  ultimately show ?thesis
    by (simp add: load_pod64_def save_pod64_def nat_of_bits_bits_of)
qed

lemma length_save_pod64 [simp]: "length (save_pod64 x) = 8"
  by (simp add: save_pod64_def)

lemma get_bits_at:
  assumes "bi_data bi = pre @ bits_of x len @ post" and "bi_position bi = length pre"
  shows "get_bits len bi = Some (x mod 2 ^ len, bi\<lparr> bi_position := length pre + len \<rparr>)"
  using assms by (simp add: get_bits_def nat_of_bits_bits_of)
subsection \<open>Widths\<close>

lemma ceil_log2_upper: "x \<le> 2 ^ ceil_log2 x"
proof (induction x rule: ceil_log2.induct)
  case (1 x)
  show ?case
  proof (cases "x \<le> 1")
    case True
    then show ?thesis by simp
  next
    case False
    then have "(x + 1) div 2 \<le> 2 ^ ceil_log2 ((x + 1) div 2)"
      using 1 by simp
    then have "x \<le> 2 * 2 ^ ceil_log2 ((x + 1) div 2)"
      by linarith
    then show ?thesis
      using False by (subst ceil_log2.simps) simp
  qed
qed

lemma ceil_log2_least: "x \<le> 2 ^ k \<Longrightarrow> ceil_log2 x \<le> k"
proof (induction x arbitrary: k rule: ceil_log2.induct)
  case (1 x)
  show ?case
  proof (cases "x \<le> 1")
    case True
    then show ?thesis by simp
  next
    case False
    then obtain k' where k: "k = Suc k'"
      using 1(2) by (cases k) auto
    have "(x + 1) div 2 \<le> 2 ^ k'"
      using 1(2) k by simp
    then have "ceil_log2 ((x + 1) div 2) \<le> k'"
      using 1(1) False by simp
    then show ?thesis
      using False k by (subst ceil_log2.simps) simp
  qed
qed

lemmas [simp del] = ceil_log2.simps

lemma less_ceil_log2: "x < y \<Longrightarrow> x < 2 ^ ceil_log2 (y :: nat)"
  using ceil_log2_upper[of y] by simp

subsection \<open>Comparators\<close>

lemma traversal_length [simp]: "length (traversal c) = cmp_order c"
  by (simp add: traversal_def)

lemma traversal_nth:
  "k < cmp_order c \<Longrightarrow> traversal c ! k = (cmp_next c ^^ k) (cmp_begin c)"
  by (simp add: traversal_def)

lemma traversal_next:
  "Suc k < cmp_order c \<Longrightarrow> cmp_next c (traversal c ! k) = traversal c ! Suc k"
  by (simp add: traversal_nth)

lemma traversal_range:
  assumes "comparator_ok c" and "k < cmp_order c"
  shows "0 \<le> traversal c ! k \<and> traversal c ! k < int (cmp_order c)"
proof -
  have "traversal c ! k \<in> set (traversal c)"
    using assms(2) by simp
  then show ?thesis
    using assms(1) by (simp add: comparator_ok_def)
qed

lemma traversal_end:
  assumes "comparator_ok c" and "k < cmp_order c"
  shows "traversal c ! k = cmp_end c \<longleftrightarrow> Suc k = cmp_order c"
proof -
  have "length (traversal c) \<noteq> 0"
    using assms(2) by simp
  then have ne: "traversal c \<noteq> []"
    by (simp only: length_0_conv) simp
  have e: "cmp_end c = traversal c ! (cmp_order c - 1)"
    using assms(1) ne by (simp add: comparator_ok_def last_conv_nth)
  have d: "distinct (traversal c)"
    using assms(1) by (simp add: comparator_ok_def)
  have "traversal c ! k = traversal c ! (cmp_order c - 1) \<longleftrightarrow> k = cmp_order c - 1"
    using d assms(2) by (simp add: nth_eq_iff_index_eq)
  then show ?thesis
    using e assms(2) by auto
qed

lemma traversal_advance:
  "comparator_ok c \<Longrightarrow> k < cmp_order c \<Longrightarrow> cmp_advance c (cmp_begin c) (int k) = traversal c ! k"
  by (simp add: comparator_ok_def)

lemma lcp_along_le: "lcp_along t x y \<le> length t"
  by (simp add: lcp_along_def length_takeWhile_le)

lemma lcp_along_agree:
  assumes "i \<in> set (take (lcp_along t x y) t)"
  shows "word_at x i = word_at y i"
proof -
  have "take (lcp_along t x y) t = takeWhile (\<lambda>i. word_at x i = word_at y i) t"
    unfolding lcp_along_def by (rule takeWhile_eq_take[symmetric])
  then have "i \<in> set (takeWhile (\<lambda>i. word_at x i = word_at y i) t)"
    using assms by simp
  then have "i \<in> set t \<and> word_at x i = word_at y i"
    by (rule set_takeWhileD)
  then show ?thesis
    by simp
qed

lemma lcp_along_less:
  assumes ok: "comparator_ok c" and lx: "length (ng_words x) = cmp_order c"
    and ly: "length (ng_words y) = cmp_order c" and ne: "ng_words x \<noteq> ng_words y"
  shows "lcp_along (traversal c) x y < cmp_order c"
proof (rule ccontr)
  assume "\<not> lcp_along (traversal c) x y < cmp_order c"
  then have full: "lcp_along (traversal c) x y = length (traversal c)"
    using lcp_along_le[of "traversal c" x y] by simp
  have agree: "word_at x i = word_at y i" if "i \<in> set (traversal c)" for i
    using lcp_along_agree[of i "traversal c" x y] that by (simp add: full)
  have "ng_words x ! j = ng_words y ! j" if "j < cmp_order c" for j
  proof -
    have "int j \<in> set (traversal c)"
      using ok that by (simp add: comparator_ok_def)
    then have "word_at x (int j) = word_at y (int j)"
      by (rule agree)
    then show ?thesis
      using that lx ly by (simp add: word_at_def)
  qed
  then have "ng_words x = ng_words y"
    using lx ly by (simp add: nth_equalityI)
  then show False
    using ne by simp
qed
subsection \<open>What the writer appends\<close>

lemma fits_nth: "fits N w v ptr \<Longrightarrow> j < N \<Longrightarrow> unat (ng_words ptr ! j) < 2 ^ w"
  by (simp add: fits_def list_all_length)

lemma fits_word_at:
  assumes "fits N w v ptr" and "0 \<le> i" and "i < int N"
  shows "word_at ptr i = Some (ng_words ptr ! nat i)"
  using assms by (simp add: fits_def word_at_def)

lemma append_word_fits:
  assumes "fits N w v ptr" and "0 \<le> i" and "i < int N"
  shows "append_bits (unat (ng_words ptr ! nat i)) w buf
           = Some (buf @ bits_of (unat (ng_words ptr ! nat i)) w)"
proof -
  have "nat i < N"
    using assms(2,3) by simp
  then show ?thesis
    using fits_nth[OF assms(1)] by (simp add: append_bits_def)
qed

lemma append_words_ok:
  assumes "fits N w v ptr"
  shows "(\<forall>i\<in>set idx. 0 \<le> i \<and> i < int N) \<Longrightarrow>
           append_words w ptr idx buf = Some (buf @ word_bits w ptr idx)"
proof (induction idx arbitrary: buf)
  case Nil
  then show ?case by (simp add: word_bits_def)
next
  case (Cons i idx)
  have i: "0 \<le> i" "i < int N"
    using Cons.prems by simp_all
  have "append_words w ptr idx (buf @ bits_of (unat (ng_words ptr ! nat i)) w)
          = Some ((buf @ bits_of (unat (ng_words ptr ! nat i)) w) @ word_bits w ptr idx)"
    using Cons by simp
  then show ?case
    using fits_word_at[OF assms i] append_word_fits[OF assms i]
    by (simp add: word_bits_def)
qed

lemma append_value_ok:
  "fits N w v ptr \<Longrightarrow> append_value v ptr buf = Some (buf @ bits_of (unat (ng_value ptr)) v)"
  by (simp add: append_value_def append_bits_def fits_def)

lemma explicit_write_ok:
  assumes "fits N w v ptr"
  shows "explicit_write N w v ptr buf = Some (buf @ explicit_bits N w v ptr)"
proof -
  have "append_words w ptr (map int [0..<N]) buf
          = Some (buf @ word_bits w ptr (map int [0..<N]))"
    by (rule append_words_ok[OF assms]) auto
  then show ?thesis
    using append_value_ok[OF assms] by (simp add: explicit_write_def explicit_bits_def)
qed

lemma write_suffix_ok:
  assumes ok: "comparator_ok c" and f: "fits (cmp_order c) w v ptr"
  shows "k < cmp_order c \<Longrightarrow>
           write_suffix c w ptr (traversal c ! k) buf
             = Some (buf @ word_bits w ptr (drop k (traversal c)))"
proof (induction "cmp_order c - k" arbitrary: k buf)
  case 0
  then show ?case by simp
next
  case (Suc d)
  let ?i = "traversal c ! k"
  let ?x = "ng_words ptr ! nat ?i"
  have r: "0 \<le> ?i" "?i < int (cmp_order c)"
    using traversal_range[OF ok Suc.prems] by simp_all
  have wa: "word_at ptr ?i = Some ?x"
    using fits_word_at[OF f r] .
  have ab: "append_bits (unat ?x) w buf = Some (buf @ bits_of (unat ?x) w)"
    using append_word_fits[OF f r] .
  have dr: "drop k (traversal c) = ?i # drop (Suc k) (traversal c)"
    using Suc.prems by (simp add: Cons_nth_drop_Suc)
  show ?case
  proof (cases "Suc k = cmp_order c")
    case True
    then have "?i = cmp_end c"
      using traversal_end[OF ok Suc.prems] by simp
    moreover have "drop (Suc k) (traversal c) = []"
      using True by simp
    ultimately show ?thesis
      using wa ab dr by (subst write_suffix.simps) (simp add: word_bits_def)
  next
    case False
    then have lt: "Suc k < cmp_order c"
      using Suc.prems by simp
    have ne: "?i \<noteq> cmp_end c"
      using traversal_end[OF ok Suc.prems] False by simp
    have "cmp_order c - Suc k = d"
      using Suc.hyps(2) by simp
    then have "write_suffix c w ptr (traversal c ! Suc k) (buf @ bits_of (unat ?x) w)
        = Some ((buf @ bits_of (unat ?x) w) @ word_bits w ptr (drop (Suc k) (traversal c)))"
      using Suc.hyps(1)[of "Suc k"] lt by simp
    then show ?thesis
      using wa ab dr ne traversal_next[OF lt]
      by (subst write_suffix.simps) (simp add: word_bits_def)
  qed
qed

lemma encode_record_ok:
  assumes ok: "comparator_ok c" and f: "fits (cmp_order c) w v ptr"
    and lp: "length (ng_words prev) = cmp_order c"
    and ne: "ng_words ptr \<noteq> ng_words prev"
  shows "encode_record c (ceil_log2 (cmp_order c + 1)) w v ptr prev buf
           = Some (buf @ record_bits c (ceil_log2 (cmp_order c + 1)) w v ptr prev)"
proof -
  let ?N = "cmp_order c"
  let ?l = "ceil_log2 (?N + 1)"
  let ?k = "lcp_along (traversal c) ptr prev"
  have lx: "length (ng_words ptr) = ?N"
    using f by (simp add: fits_def)
  have k: "?k < ?N"
    using lcp_along_less[OF ok lx lp ne] .
  have lcp: "cmp_lcp c ptr prev = int ?k"
    using ok by (simp add: comparator_ok_def)
  have N: "?N < 256"
    using ok by (simp add: comparator_ok_def)
  have "int ?k mod 2 ^ 64 = int ?k"
    using k N by simp
  then have conv: "nat (cmp_lcp c ptr prev mod 2 ^ 64) = ?k"
    by (simp add: lcp)
  have "?k < 2 ^ ?l"
    using k by (intro less_ceil_log2) simp
  then have ab: "append_bits ?k ?l buf = Some (buf @ bits_of ?k ?l)"
    by (simp add: append_bits_def)
  show ?thesis
  proof (cases "?k = 0")
    case True
    then show ?thesis
      using k lcp conv ab explicit_write_ok[OF f, of "buf @ bits_of ?k ?l"]
      by (simp add: encode_record_def record_bits_def Let_def)
  next
    case False
    have "write_suffix c w ptr (cmp_advance c (cmp_begin c) (int ?k)) (buf @ bits_of ?k ?l)
        = Some ((buf @ bits_of ?k ?l) @ word_bits w ptr (drop ?k (traversal c)))"
      using write_suffix_ok[OF ok f k] traversal_advance[OF ok k] by simp
    then show ?thesis
      using False k lcp conv ab append_value_ok[OF f]
      by (simp add: encode_record_def record_bits_def Let_def)
  qed
qed

lemma length_word_bits [simp]: "length (word_bits w ptr idx) = w * length idx"
  by (induction idx) (simp_all add: word_bits_def)

lemma length_explicit_bits [simp]: "length (explicit_bits N w v ptr) = N * w + v"
  by (simp add: explicit_bits_def)

lemma length_record_bits:
  "length (record_bits c l w v ptr prev) \<le> max_record_size l (cmp_order c) w v"
proof -
  have "w * (cmp_order c - lcp_along (traversal c) ptr prev) \<le> cmp_order c * w"
    by simp
  then show ?thesis
    by (simp add: record_bits_def max_record_size_def Let_def)
qed
subsection \<open>What the reader decodes\<close>

lemma decode_value_ok:
  assumes "bi_data (m_it it) = pre @ bits_of (unat x) (it_v it) @ post"
    and "bi_position (m_it it) = length pre"
    and "c_pos (m_back it) = int (length (c_words (m_back it)))"
    and "unat x < 2 ^ it_v it"
  shows "decode_value it
           = Some (it\<lparr> m_it := (m_it it)\<lparr> bi_position := length pre + it_v it \<rparr>,
                       m_back := (m_back it)\<lparr> c_value := x,
                                   c_pos := int (length (c_words (m_back it))) + 2 \<rparr> \<rparr>)"
  using assms get_bits_at[OF assms(1,2)]
  by (simp add: decode_value_def store_value_def)

lemma decode_words_ok:
  "bi_data (m_it it) = pre @ concat (map (\<lambda>x. bits_of (unat x) (it_w it)) xs) @ post \<Longrightarrow>
   bi_position (m_it it) = length pre \<Longrightarrow>
   c_pos (m_back it) = int k \<Longrightarrow>
   k + length xs \<le> length (c_words (m_back it)) \<Longrightarrow>
   list_all (\<lambda>x. unat x < 2 ^ it_w it) xs \<Longrightarrow>
   decode_words (length xs) it
     = Some (it\<lparr> m_it := (m_it it)\<lparr> bi_position := length pre + it_w it * length xs \<rparr>,
                 m_back := (m_back it)\<lparr>
                   c_words := take k (c_words (m_back it)) @ xs @
                              drop (k + length xs) (c_words (m_back it)),
                   c_pos := int (k + length xs) \<rparr> \<rparr>)"
proof (induction xs arbitrary: it pre k)
  case Nil
  then show ?case by simp
next
  case (Cons x xs)
  let ?w = "it_w it"
  let ?ws = "c_words (m_back it)"
  have data: "bi_data (m_it it)
      = pre @ bits_of (unat x) ?w @ (concat (map (\<lambda>x. bits_of (unat x) ?w) xs) @ post)"
    using Cons.prems(1) by simp
  have x: "unat x < 2 ^ ?w"
    using Cons.prems(5) by simp
  have g: "get_bits ?w (m_it it)
      = Some (unat x, (m_it it)\<lparr> bi_position := length pre + ?w \<rparr>)"
    using get_bits_at[OF data Cons.prems(2)] x by simp
  have k: "k < length ?ws"
    using Cons.prems(4) by simp
  have st: "store_word (of_nat (unat x)) (m_back it)
      = Some ((m_back it)\<lparr> c_words := ?ws[k := x] \<rparr>)"
    using Cons.prems(3) k by (simp add: store_word_def)
  let ?it' = "it\<lparr> m_it := (m_it it)\<lparr> bi_position := length pre + ?w \<rparr>,
                  m_back := (m_back it)\<lparr> c_words := ?ws[k := x], c_pos := int k + 1 \<rparr> \<rparr>"
  have step: "decode_words (Suc (length xs)) it = decode_words (length xs) ?it'"
    using g st Cons.prems(3) by simp
  have "decode_words (length xs) ?it'
     = Some (?it'\<lparr> m_it := (m_it ?it')\<lparr> bi_position := length (pre @ bits_of (unat x) ?w)
                                               + it_w ?it' * length xs \<rparr>,
                 m_back := (m_back ?it')\<lparr>
                   c_words := take (Suc k) (c_words (m_back ?it')) @ xs @
                              drop (Suc k + length xs) (c_words (m_back ?it')),
                   c_pos := int (Suc k + length xs) \<rparr> \<rparr>)"
  proof (rule Cons.IH)
    show "bi_data (m_it ?it') = (pre @ bits_of (unat x) ?w) @
            concat (map (\<lambda>x. bits_of (unat x) (it_w ?it')) xs) @ post"
      using data by simp
    show "list_all (\<lambda>x. unat x < 2 ^ it_w ?it') xs"
      using Cons.prems(5) by simp
  qed (use Cons.prems(4) in simp_all)
  moreover have "take (Suc k) (?ws[k := x]) @ xs @ drop (Suc k + length xs) (?ws[k := x])
      = take k ?ws @ (x # xs) @ drop (k + length (x # xs)) ?ws"
    using k by (simp add: take_Suc_conv_app_nth)
  ultimately show ?case
    using step by (simp add: algebra_simps)
qed

lemma word_bits_all:
  assumes "length (ng_words ptr) = N"
  shows "word_bits w ptr (map int [0..<N]) = concat (map (\<lambda>x. bits_of (unat x) w) (ng_words ptr))"
proof -
  have "map (\<lambda>i. bits_of (unat (ng_words ptr ! i)) w) [0..<length (ng_words ptr)]
      = map (\<lambda>x. bits_of (unat x) w) (ng_words ptr)"
    by (rule nth_equalityI) simp_all
  then show ?thesis
    using assms by (simp add: word_bits_def comp_def)
qed
lemma length_concat_bits:
  "length (concat (map (\<lambda>x. bits_of (unat x) w) (xs :: word_id list))) = w * length xs"
  by (induction xs) simp_all

lemma decode_explicit_ok:
  assumes data: "bi_data (m_it it) = pre @ explicit_bits N (it_w it) (it_v it) ptr @ post"
    and pos: "bi_position (m_it it) = length pre"
    and cp: "c_pos (m_back it) = 0"
    and len: "length (c_words (m_back it)) = N"
    and N: "cmp_order (it_comparator it) = N"
    and f: "fits N (it_w it) (it_v it) ptr"
  shows "decode_explicit it
           = Some (it\<lparr> m_it := (m_it it)\<lparr> bi_position := length pre + (N * it_w it + it_v it) \<rparr>,
                       m_back := \<lparr> c_words = ng_words ptr, c_value = ng_value ptr,
                                   c_pos = int N + 2 \<rparr> \<rparr>)"
proof -
  let ?w = "it_w it" and ?v = "it_v it"
  let ?xs = "ng_words ptr"
  have lx: "length ?xs = N"
    using f by (simp add: fits_def)
  have data': "bi_data (m_it it) = pre @ concat (map (\<lambda>x. bits_of (unat x) ?w) ?xs)
                 @ (bits_of (unat (ng_value ptr)) ?v @ post)"
    using data word_bits_all[OF lx, of ?w] by (simp add: explicit_bits_def)
  have "decode_words (length ?xs) it
     = Some (it\<lparr> m_it := (m_it it)\<lparr> bi_position := length pre + ?w * length ?xs \<rparr>,
                 m_back := (m_back it)\<lparr>
                   c_words := take 0 (c_words (m_back it)) @ ?xs @
                              drop (0 + length ?xs) (c_words (m_back it)),
                   c_pos := int (0 + length ?xs) \<rparr> \<rparr>)"
  proof (rule decode_words_ok[OF data' pos])
    show "list_all (\<lambda>x. unat x < 2 ^ ?w) ?xs"
      using f by (simp add: fits_def)
  qed (use cp len lx in simp_all)
  then have words: "decode_words N it
     = Some (it\<lparr> m_it := (m_it it)\<lparr> bi_position := length pre + ?w * N \<rparr>,
                 m_back := (m_back it)\<lparr> c_words := ?xs, c_pos := int N \<rparr> \<rparr>)"
    using len lx by simp
  let ?it1 = "it\<lparr> m_it := (m_it it)\<lparr> bi_position := length pre + ?w * N \<rparr>,
                 m_back := (m_back it)\<lparr> c_words := ?xs, c_pos := int N \<rparr> \<rparr>"
  let ?pre1 = "pre @ concat (map (\<lambda>x. bits_of (unat x) ?w) ?xs)"
  have "decode_value ?it1
     = Some (?it1\<lparr> m_it := (m_it ?it1)\<lparr> bi_position := length ?pre1 + it_v ?it1 \<rparr>,
                   m_back := (m_back ?it1)\<lparr> c_value := ng_value ptr,
                               c_pos := int (length (c_words (m_back ?it1))) + 2 \<rparr> \<rparr>)"
  proof (rule decode_value_ok)
    show "bi_data (m_it ?it1) = ?pre1 @ bits_of (unat (ng_value ptr)) (it_v ?it1) @ post"
      using data' by simp
    show "bi_position (m_it ?it1) = length ?pre1"
      using lx by (simp add: length_concat_bits)
    show "unat (ng_value ptr) < 2 ^ it_v ?it1"
      using f by (simp add: fits_def)
  qed (use lx in simp)
  moreover have "length ?pre1 = length pre + ?w * N"
    using lx by (simp add: length_concat_bits)
  ultimately show ?thesis
    using words N lx by (simp add: decode_explicit_def algebra_simps)
qed
lemma length_overwrite [simp]: "length (overwrite ws ptr idx) = length ws"
  by (induction idx arbitrary: ws) simp_all

lemma overwrite_nth:
  "j < length ws \<Longrightarrow> (\<forall>i\<in>set idx. 0 \<le> i) \<Longrightarrow>
   overwrite ws ptr idx ! j = (if int j \<in> set idx then ng_words ptr ! j else ws ! j)"
proof (induction idx arbitrary: ws)
  case Nil
  then show ?case by simp
next
  case (Cons i idx)
  have i: "0 \<le> i"
    using Cons.prems(2) by simp
  have "overwrite (ws[nat i := ng_words ptr ! nat i]) ptr idx ! j
      = (if int j \<in> set idx then ng_words ptr ! j else (ws[nat i := ng_words ptr ! nat i]) ! j)"
    using Cons by simp
  moreover have "(ws[nat i := ng_words ptr ! nat i]) ! j
      = (if int j = i then ng_words ptr ! j else ws ! j)"
    using Cons.prems(1) i by (auto simp: nth_list_update)
  ultimately show ?case
    by auto
qed

lemma overwrite_suffix:
  assumes ok: "comparator_ok c" and lx: "length (ng_words ptr) = cmp_order c"
    and lp: "length (ng_words prev) = cmp_order c"
  shows "overwrite (ng_words prev) ptr (drop (lcp_along (traversal c) ptr prev) (traversal c))
           = ng_words ptr"
proof (rule nth_equalityI)
  show "length (overwrite (ng_words prev) ptr
          (drop (lcp_along (traversal c) ptr prev) (traversal c))) = length (ng_words ptr)"
    using lx lp by simp
next
  fix j
  let ?k = "lcp_along (traversal c) ptr prev"
  let ?t = "traversal c"
  assume "j < length (overwrite (ng_words prev) ptr (drop ?k ?t))"
  then have j: "j < cmp_order c"
    using lp by simp
  have nonneg: "\<forall>i\<in>set (drop ?k ?t). 0 \<le> i"
  proof
    fix i assume "i \<in> set (drop ?k ?t)"
    then have "i \<in> set ?t"
      by (rule in_set_dropD)
    then show "0 \<le> i"
      using ok by (simp add: comparator_ok_def)
  qed
  have nth: "overwrite (ng_words prev) ptr (drop ?k ?t) ! j
      = (if int j \<in> set (drop ?k ?t) then ng_words ptr ! j else ng_words prev ! j)"
    using overwrite_nth[OF _ nonneg, of j "ng_words prev" ptr] j lp by simp
  show "overwrite (ng_words prev) ptr (drop ?k ?t) ! j = ng_words ptr ! j"
  proof (cases "int j \<in> set (drop ?k ?t)")
    case True
    then show ?thesis
      using nth by simp
  next
    case False
    have "int j \<in> set ?t"
      using ok j by (simp add: comparator_ok_def)
    then have "int j \<in> set (take ?k ?t) \<union> set (drop ?k ?t)"
      by (simp only: set_append[symmetric] append_take_drop_id)
    then have "int j \<in> set (take ?k ?t)"
      using False by simp
    then have "word_at ptr (int j) = word_at prev (int j)"
      by (rule lcp_along_agree)
    then have "ng_words ptr ! j = ng_words prev ! j"
      using j lx lp by (simp add: word_at_def)
    then show ?thesis
      using nth False by simp
  qed
qed

lemma decode_suffix_ok:
  assumes ok: "comparator_ok c" and f: "fits (cmp_order c) w v ptr"
  shows "k \<le> cmp_order c \<Longrightarrow>
    it_comparator it = c \<Longrightarrow> it_w it = w \<Longrightarrow>
    bi_data (m_it it) = pre @ word_bits w ptr (drop k (traversal c)) @ post \<Longrightarrow>
    bi_position (m_it it) = length pre \<Longrightarrow>
    length (c_words (m_back it)) = cmp_order c \<Longrightarrow>
    (k < cmp_order c \<longrightarrow> i = traversal c ! k \<and> c_pos (m_back it) = traversal c ! k) \<Longrightarrow>
    \<exists>p. decode_suffix (cmp_order c - k) i it
          = Some (it\<lparr> m_it := (m_it it)\<lparr> bi_position := length pre + w * (cmp_order c - k) \<rparr>,
                      m_back := (m_back it)\<lparr>
                        c_words := overwrite (c_words (m_back it)) ptr (drop k (traversal c)),
                        c_pos := p \<rparr> \<rparr>)"
proof (induction "cmp_order c - k" arbitrary: k i it pre)
  case 0
  then have "k = cmp_order c"
    by simp
  then have "decode_suffix (cmp_order c - k) i it = Some it" and "drop k (traversal c) = []"
    by simp_all
  moreover have "it = it\<lparr> m_it := (m_it it)\<lparr> bi_position := length pre + w * 0 \<rparr>,
                      m_back := (m_back it)\<lparr> c_words := c_words (m_back it),
                                  c_pos := c_pos (m_back it) \<rparr> \<rparr>"
    using "0.prems"(5) by simp
  ultimately show ?case
    using \<open>k = cmp_order c\<close> by (metis diff_self_eq_0 overwrite.simps(1))
next
  case (Suc d)
  then have lt: "k < cmp_order c"
    by simp
  let ?t = "traversal c"
  let ?i = "?t ! k"
  let ?x = "ng_words ptr ! nat ?i"
  let ?ws = "c_words (m_back it)"
  have i: "i = ?i" and cp: "c_pos (m_back it) = ?i"
    using Suc.prems(7) lt by simp_all
  have r: "0 \<le> ?i" "?i < int (cmp_order c)"
    using traversal_range[OF ok lt] by simp_all
  have dr: "drop k ?t = ?i # drop (Suc k) ?t"
    using lt by (simp add: Cons_nth_drop_Suc)
  have data: "bi_data (m_it it)
      = pre @ bits_of (unat ?x) w @ (word_bits w ptr (drop (Suc k) ?t) @ post)"
    using Suc.prems(4) dr by (simp add: word_bits_def)
  have x: "unat ?x < 2 ^ w"
    using fits_nth[OF f, of "nat ?i"] r by simp
  have g: "get_bits (it_w it) (m_it it)
      = Some (unat ?x, (m_it it)\<lparr> bi_position := length pre + w \<rparr>)"
    using get_bits_at[OF data Suc.prems(5)] x Suc.prems(3) by simp
  have st: "store_word (of_nat (unat ?x)) (m_back it)
      = Some ((m_back it)\<lparr> c_words := ?ws[nat ?i := ?x] \<rparr>)"
    using cp r Suc.prems(6) by (simp add: store_word_def)
  let ?i' = "cmp_next c ?i"
  let ?it' = "it\<lparr> m_it := (m_it it)\<lparr> bi_position := length pre + w \<rparr>,
                  m_back := (m_back it)\<lparr> c_words := ?ws[nat ?i := ?x], c_pos := ?i' \<rparr> \<rparr>"
  have step: "decode_suffix (Suc (cmp_order c - Suc k)) i it
      = decode_suffix (cmp_order c - Suc k) ?i' ?it'"
    using g st i Suc.prems(2) by simp
  have d: "cmp_order c - Suc k = d"
    using Suc.hyps(2) by simp
  have "\<exists>p. decode_suffix (cmp_order c - Suc k) ?i' ?it'
       = Some (?it'\<lparr> m_it := (m_it ?it')\<lparr> bi_position := length (pre @ bits_of (unat ?x) w)
                                                 + w * (cmp_order c - Suc k) \<rparr>,
                     m_back := (m_back ?it')\<lparr>
                       c_words := overwrite (c_words (m_back ?it')) ptr (drop (Suc k) ?t),
                       c_pos := p \<rparr> \<rparr>)"
  proof (rule Suc.hyps(1))
    show "d = cmp_order c - Suc k"
      using d by simp
    show "Suc k \<le> cmp_order c"
      using lt by simp
    show "bi_data (m_it ?it') = (pre @ bits_of (unat ?x) w) @
            word_bits w ptr (drop (Suc k) ?t) @ post"
      using data by simp
    show "Suc k < cmp_order c \<longrightarrow> ?i' = ?t ! Suc k \<and> c_pos (m_back ?it') = ?t ! Suc k"
      using traversal_next[of k c] by simp
  qed (use Suc.prems in simp_all)
  then obtain p where "decode_suffix (cmp_order c - Suc k) ?i' ?it'
       = Some (?it'\<lparr> m_it := (m_it ?it')\<lparr> bi_position := length (pre @ bits_of (unat ?x) w)
                                                 + w * (cmp_order c - Suc k) \<rparr>,
                     m_back := (m_back ?it')\<lparr>
                       c_words := overwrite (c_words (m_back ?it')) ptr (drop (Suc k) ?t),
                       c_pos := p \<rparr> \<rparr>)"
    by blast
  moreover have "cmp_order c - k = Suc (cmp_order c - Suc k)"
    using lt by simp
  moreover have "length pre + w + w * (cmp_order c - Suc k) = length pre + w * (cmp_order c - k)"
    using lt by (simp add: Suc_diff_Suc[symmetric])
  ultimately show ?case
    using step dr by (intro exI[of _ p]) simp
qed
lemma decode_ok:
  assumes ok: "comparator_ok c" and f: "fits (cmp_order c) w v ptr"
    and lp: "length (ng_words prev) = cmp_order c"
    and ne: "ng_words ptr \<noteq> ng_words prev"
    and cmp: "it_comparator it = c" and l: "it_l it = ceil_log2 (cmp_order c + 1)"
    and w: "it_w it = w" and v: "it_v it = v"
    and data: "bi_data (m_it it) = pre @ record_bits c (it_l it) w v ptr prev @ post"
    and pos: "bi_position (m_it it) = length pre"
    and cache: "c_words (m_back it) = ng_words prev"
  shows "decode it
           = Some (it\<lparr> m_it := (m_it it)\<lparr> bi_position :=
                                length pre + length (record_bits c (it_l it) w v ptr prev) \<rparr>,
                       m_back := \<lparr> c_words = ng_words ptr, c_value = ng_value ptr,
                                   c_pos = int (cmp_order c) + 2 \<rparr> \<rparr>)"
proof -
  let ?N = "cmp_order c"
  let ?l = "it_l it"
  let ?t = "traversal c"
  let ?k = "lcp_along ?t ptr prev"
  have lx: "length (ng_words ptr) = ?N"
    using f by (simp add: fits_def)
  have k: "?k < ?N"
    using lcp_along_less[OF ok lx lp ne] .
  have kl: "?k < 2 ^ ?l"
    unfolding l using k by (intro less_ceil_log2) simp
  let ?body = "if ?k = 0 then explicit_bits ?N w v ptr
               else word_bits w ptr (drop ?k ?t) @ bits_of (unat (ng_value ptr)) v"
  have rb: "record_bits c ?l w v ptr prev = bits_of ?k ?l @ ?body"
    by (simp add: record_bits_def Let_def)
  let ?it0 = "it\<lparr> m_back := cache_init (m_back it) \<rparr>"
  have data0: "bi_data (m_it ?it0) = pre @ bits_of ?k ?l @ (?body @ post)"
    using data rb by simp
  have g: "get_bits (it_l ?it0) (m_it ?it0)
      = Some (?k, (m_it it)\<lparr> bi_position := length pre + ?l \<rparr>)"
    using get_bits_at[OF data0] pos kl by simp
  let ?it1 = "it\<lparr> m_back := cache_init (m_back it),
                  m_it := (m_it it)\<lparr> bi_position := length pre + ?l \<rparr> \<rparr>"
  let ?pre1 = "pre @ bits_of ?k ?l"
  show ?thesis
  proof (cases "?k = 0")
    case True
    have "decode_explicit ?it1
        = Some (?it1\<lparr> m_it := (m_it ?it1)\<lparr> bi_position :=
                             length ?pre1 + (?N * it_w ?it1 + it_v ?it1) \<rparr>,
                       m_back := \<lparr> c_words = ng_words ptr, c_value = ng_value ptr,
                                   c_pos = int ?N + 2 \<rparr> \<rparr>)"
    proof (rule decode_explicit_ok)
      show "bi_data (m_it ?it1) = ?pre1 @ explicit_bits ?N (it_w ?it1) (it_v ?it1) ptr @ post"
        using data rb True w v by simp
      show "fits ?N (it_w ?it1) (it_v ?it1) ptr"
        using f w v by simp
    qed (use lp cache cmp in \<open>simp_all add: cache_init_def\<close>)
    then show ?thesis
      using g True rb w v by (simp add: decode_def Let_def)
  next
    case False
    let ?i = "cmp_advance c (cmp_begin c) (int ?k)"
    have adv: "?i = ?t ! ?k"
      using traversal_advance[OF ok k] .
    let ?it2 = "?it1\<lparr> m_back := (m_back ?it1)\<lparr> c_pos := ?i \<rparr> \<rparr>"
    have "\<exists>p. decode_suffix (?N - ?k) ?i ?it2
          = Some (?it2\<lparr> m_it := (m_it ?it2)\<lparr> bi_position := length ?pre1 + w * (?N - ?k) \<rparr>,
                        m_back := (m_back ?it2)\<lparr>
                          c_words := overwrite (c_words (m_back ?it2)) ptr (drop ?k ?t),
                          c_pos := p \<rparr> \<rparr>)"
    proof (rule decode_suffix_ok[OF ok f])
      show "bi_data (m_it ?it2) = ?pre1 @ word_bits w ptr (drop ?k ?t)
              @ (bits_of (unat (ng_value ptr)) v @ post)"
        using data rb False by simp
      show "?k < ?N \<longrightarrow> ?i = ?t ! ?k \<and> c_pos (m_back ?it2) = ?t ! ?k"
        using adv by simp
    qed (use k lp cache cmp w in \<open>simp_all add: cache_init_def\<close>)
    then obtain p where suf: "decode_suffix (?N - ?k) ?i ?it2
          = Some (?it2\<lparr> m_it := (m_it ?it2)\<lparr> bi_position := length ?pre1 + w * (?N - ?k) \<rparr>,
                        m_back := (m_back ?it2)\<lparr>
                          c_words := overwrite (c_words (m_back ?it2)) ptr (drop ?k ?t),
                          c_pos := p \<rparr> \<rparr>)"
      by blast
    have ow: "overwrite (c_words (m_back ?it2)) ptr (drop ?k ?t) = ng_words ptr"
      using overwrite_suffix[OF ok lx lp] cache by (simp add: cache_init_def)
    let ?it3 = "?it2\<lparr> m_it := (m_it ?it2)\<lparr> bi_position := length ?pre1 + w * (?N - ?k) \<rparr>,
                     m_back := (m_back ?it2)\<lparr> c_words := ng_words ptr, c_pos := int ?N \<rparr> \<rparr>"
    let ?pre2 = "?pre1 @ word_bits w ptr (drop ?k ?t)"
    have dec: "decode it = decode_value ?it3"
      using g False suf ow k cmp by (simp add: decode_def Let_def)
    have val: "decode_value ?it3
       = Some (?it3\<lparr> m_it := (m_it ?it3)\<lparr> bi_position := length ?pre2 + it_v ?it3 \<rparr>,
                     m_back := (m_back ?it3)\<lparr> c_value := ng_value ptr,
                                 c_pos := int (length (c_words (m_back ?it3))) + 2 \<rparr> \<rparr>)"
    proof (rule decode_value_ok)
      show "bi_data (m_it ?it3) = ?pre2 @ bits_of (unat (ng_value ptr)) (it_v ?it3) @ post"
        using data rb False v by simp
      show "unat (ng_value ptr) < 2 ^ it_v ?it3"
        using f v by (simp add: fits_def)
    qed (use lx k in simp_all)
    have len: "length ?pre2 + v = length pre + length (record_bits c ?l w v ptr prev)"
      using False k by (simp add: rb)
    have ca: "(m_back ?it3)\<lparr> c_value := ng_value ptr,
                c_pos := int (length (c_words (m_back ?it3))) + 2 \<rparr>
         = \<lparr> c_words = ng_words ptr, c_value = ng_value ptr, c_pos = int ?N + 2 \<rparr>"
      using lx by simp
    show ?thesis
      unfolding dec val ca using len v by simp
  qed
qed
subsection \<open>Decoding a block\<close>

lemma of_nat_eq_64:
  assumes "a < 2 ^ 64" and "b < 2 ^ 64" and "(of_nat a :: 64 word) = of_nat b"
  shows "a = b"
proof -
  have ua: "unat (of_nat a :: 64 word) = a" and ub: "unat (of_nat b :: 64 word) = b"
    using assms(1,2) by (simp_all add: unat_of_nat)
  from assms(3) have "unat (of_nat a :: 64 word) = unat (of_nat b :: 64 word)"
    by (rule arg_cong)
  then show ?thesis
    by (simp only: ua ub)
qed

lemma collect_last:
  assumes "m_pos it = of_nat idx" and "it_size it = of_nat (Suc idx)" and "Suc idx < 2 ^ 64"
  shows "collect it = Some [deref it]"
proof -
  have ne: "m_pos it \<noteq> it_size it"
    using of_nat_eq_64[of idx "Suc idx"] assms by auto
  have last: "m_pos it = it_size it - 1"
    using assms(1,2) by simp
  let ?it' = "it\<lparr> m_pos := m_pos it + 1 \<rparr>"
  have inc: "increment it = Some ?it'"
    using last by (simp add: increment_def)
  have "m_pos ?it' = it_size ?it'"
    using assms(1,2) by simp
  then have "collect ?it' = Some []"
    by (subst collect.simps) simp
  then show ?thesis
    using ne inc by (subst collect.simps) (simp add: deref_def)
qed

lemma collect_tail:
  assumes ok: "comparator_ok c"
  shows "list_all (fits (cmp_order c) w v) (r # rs) \<Longrightarrow>
    successively (\<lambda>a b. ng_words a \<noteq> ng_words b) (r # rs) \<Longrightarrow>
    it_comparator it = c \<Longrightarrow> it_l it = ceil_log2 (cmp_order c + 1) \<Longrightarrow>
    it_w it = w \<Longrightarrow> it_v it = v \<Longrightarrow>
    bi_data (m_it it) = pre @ tail_bits c (it_l it) w v r rs @ post \<Longrightarrow>
    bi_position (m_it it) = length pre \<Longrightarrow>
    c_words (m_back it) = ng_words r \<Longrightarrow> c_value (m_back it) = ng_value r \<Longrightarrow>
    m_pos it = of_nat idx \<Longrightarrow> it_size it = of_nat (Suc idx + length rs) \<Longrightarrow>
    Suc idx + length rs < 2 ^ 64 \<Longrightarrow>
    collect it = Some (r # rs)"
proof (induction rs arbitrary: r it pre idx)
  case Nil
  have "collect it = Some [deref it]"
    using Nil.prems by (intro collect_last[of it idx]) simp_all
  moreover have "deref it = r"
    using Nil.prems(9,10) by (simp add: deref_def)
  ultimately show ?case
    by simp
next
  case (Cons r' rs)
  let ?N = "cmp_order c"
  have fr: "fits ?N w v r" and fr': "fits ?N w v r'"
    using Cons.prems(1) by simp_all
  have lp: "length (ng_words r) = ?N"
    using fr by (simp add: fits_def)
  have ne_words: "ng_words r' \<noteq> ng_words r"
    using Cons.prems(2) by auto
  have bound: "Suc idx + Suc (length rs) < 2 ^ 64"
    using Cons.prems(13) by simp
  have ne: "m_pos it \<noteq> it_size it"
    using of_nat_eq_64[of idx "Suc idx + Suc (length rs)"] Cons.prems(11,12) bound by auto
  have "it_size it - 1 = of_nat (idx + Suc (length rs))"
    using Cons.prems(12) by simp
  then have not_last: "m_pos it \<noteq> it_size it - 1"
    using of_nat_eq_64[of idx "idx + Suc (length rs)"] Cons.prems(11) bound by auto
  let ?rb = "record_bits c (it_l it) w v r' r"
  have data: "bi_data (m_it it) = pre @ ?rb @ (tail_bits c (it_l it) w v r' rs @ post)"
    using Cons.prems(7) by simp
  let ?it1 = "it\<lparr> m_it := (m_it it)\<lparr> bi_position := length pre + length ?rb \<rparr>,
                  m_back := \<lparr> c_words = ng_words r', c_value = ng_value r',
                              c_pos = int ?N + 2 \<rparr> \<rparr>"
  have dec: "decode it = Some ?it1"
    using decode_ok[OF ok fr' lp ne_words Cons.prems(3,4,5,6) data Cons.prems(8,9)] .
  let ?it' = "?it1\<lparr> m_pos := m_pos ?it1 + 1 \<rparr>"
  have inc: "increment it = Some ?it'"
    using not_last dec by (simp add: increment_def)
  have "collect ?it' = Some (r' # rs)"
  proof (rule Cons.IH[where pre = "pre @ ?rb" and idx = "Suc idx"])
    show "list_all (fits ?N w v) (r' # rs)"
      using Cons.prems(1) by simp
    show "successively (\<lambda>a b. ng_words a \<noteq> ng_words b) (r' # rs)"
      using Cons.prems(2) by simp
    show "bi_data (m_it ?it') = (pre @ ?rb) @ tail_bits c (it_l ?it') w v r' rs @ post"
      using data by simp
    show "m_pos ?it' = of_nat (Suc idx)"
      using Cons.prems(11) by simp
    show "it_size ?it' = of_nat (Suc (Suc idx) + length rs)"
      using Cons.prems(12) by simp
    show "Suc (Suc idx) + length rs < 2 ^ 64"
      using bound by simp
  qed (use Cons.prems in simp_all)
  moreover have "deref it = r"
    using Cons.prems(9,10) by (simp add: deref_def)
  ultimately show ?case
    using ne inc by (subst collect.simps) simp
qed

lemma decode_block_ok:
  assumes ok: "comparator_ok c"
    and fit: "list_all (fits (cmp_order c) w v) g"
    and succ: "successively (\<lambda>a b. ng_words a \<noteq> ng_words b) g"
    and ne: "g \<noteq> []" and len: "length g < 2 ^ 64"
    and room: "length (block_bits c (ceil_log2 (cmp_order c + 1)) w v g) \<le> 8 * k"
  shows "decode_block c (of_nat (length g)) w v
           (byte_chunks k (block_bits c (ceil_log2 (cmp_order c + 1)) w v g)) = Some g"
proof -
  let ?N = "cmp_order c"
  let ?l = "ceil_log2 (?N + 1)"
  obtain r rs where g: "g = r # rs"
    using ne by (cases g) auto
  let ?bits = "block_bits c ?l w v g"
  let ?pad = "replicate (8 * k - length ?bits) False"
  let ?blk = "read_block (byte_chunks k ?bits) (new_fc_block c (of_nat (length g)) w v)"
  have mem: "blk_memory ?blk = explicit_bits ?N w v r @ tail_bits c ?l w v r rs @ ?pad"
    using bits_of_bytes_chunks_fit[OF room] by (simp add: read_block_def g)
  have nz: "(of_nat (length g) :: 64 word) \<noteq> 0"
    using of_nat_eq_64[of "length g" 0] len ne by auto
  let ?it0 = "\<lparr> m_it = \<lparr> bi_data = blk_memory ?blk, bi_position = 0 \<rparr>,
                 it_comparator = c, m_back = new_cache ?N,
                 m_pos = 0, it_size = of_nat (length g),
                 it_l = ?l, it_w = w, it_v = v \<rparr>"
  have fr: "fits ?N w v r"
    using fit g by simp
  have "decode_explicit ?it0
      = Some (?it0\<lparr> m_it := (m_it ?it0)\<lparr> bi_position := length ([] :: bool list)
                                         + (?N * it_w ?it0 + it_v ?it0) \<rparr>,
                     m_back := \<lparr> c_words = ng_words r, c_value = ng_value r,
                                 c_pos = int ?N + 2 \<rparr> \<rparr>)"
  proof (rule decode_explicit_ok)
    show "bi_data (m_it ?it0) = [] @ explicit_bits ?N (it_w ?it0) (it_v ?it0) r
            @ (tail_bits c ?l w v r rs @ ?pad)"
      using mem by simp
    show "fits ?N (it_w ?it0) (it_v ?it0) r"
      using fr by simp
  qed (simp_all add: new_cache_def)
  then have first: "decode_explicit ?it0
      = Some (?it0\<lparr> m_it := (m_it ?it0)\<lparr> bi_position := ?N * w + v \<rparr>,
                     m_back := \<lparr> c_words = ng_words r, c_value = ng_value r,
                                 c_pos = int ?N + 2 \<rparr> \<rparr>)"
    by simp
  let ?it1 = "?it0\<lparr> m_it := (m_it ?it0)\<lparr> bi_position := ?N * w + v \<rparr>,
                   m_back := \<lparr> c_words = ng_words r, c_value = ng_value r,
                               c_pos = int ?N + 2 \<rparr> \<rparr>"
  have beg: "block_begin ?blk = Some ?it1"
    using first nz
    by (simp add: block_begin_def new_fc_iterator_def Let_def read_block_def new_fc_block_def)
  have "collect ?it1 = Some (r # rs)"
  proof (rule collect_tail[OF ok, where w = w and v = v
        and pre = "explicit_bits ?N w v r" and post = ?pad and idx = 0])
    show "list_all (fits ?N w v) (r # rs)"
      using fit g by simp
    show "successively (\<lambda>a b. ng_words a \<noteq> ng_words b) (r # rs)"
      using succ g by simp
    show "bi_data (m_it ?it1) = explicit_bits ?N w v r @ tail_bits c (it_l ?it1) w v r rs @ ?pad"
      using mem by simp
    show "Suc 0 + length rs < 2 ^ 64"
      using len g by simp
    show "it_size ?it1 = of_nat (Suc 0 + length rs)"
      using g by simp
  qed simp_all
  then show ?thesis
    using beg g by (simp add: decode_block_def)
qed
subsection \<open>The loop of the writer\<close>

lemma tail_bits_snoc:
  "tail_bits c l w v prev (ps @ [p])
     = tail_bits c l w v prev ps @ record_bits c l w v p (last (prev # ps))"
  by (induction ps arbitrary: prev) simp_all

lemma block_bits_snoc:
  "g \<noteq> [] \<Longrightarrow> block_bits c l w v (g @ [p]) = block_bits c l w v g @ record_bits c l w v p (last g)"
  by (cases g) (simp_all add: tail_bits_snoc)

lemma block_bits_single: "block_bits c l w v [p] = explicit_bits (cmp_order c) w v p"
  by simp

lemma bits_left_eq:
  assumes "used \<le> 8 * bb" and "8 * bb < 2 ^ 64"
  shows "bits_left bb used = 8 * bb - used"
proof -
  define M :: nat where "M = 2 ^ 64"
  have lt: "8 * bb < M"
    using assms(2) by (simp add: M_def)
  have "bits_left bb used = (8 * bb + M - used mod M) mod M"
    by (simp only: bits_left_def M_def)
  also have "used mod M = used"
    using assms(1) lt by simp
  also have "8 * bb + M - used = (8 * bb - used) + M"
    using assms(1) by simp
  also have "((8 * bb - used) + M) mod M = 8 * bb - used"
    using lt by simp
  finally show ?thesis .
qed

lemma explicit_le_max: "cmp_order c * w + v \<le> max_record_size l (cmp_order c) w v"
  by (simp add: max_record_size_def)

text \<open>
  The groups into which the flush policy splits a run: they are not empty, their
  concatenation is the run, and the bits of each fit into a block.
\<close>

lemma split_run_not_Nil [simp]: "split_run bb c l w v g rest \<noteq> []"
  by (induction rest arbitrary: g) simp_all

lemma split_run_concat: "concat (split_run bb c l w v g rest) = g @ rest"
  by (induction rest arbitrary: g) simp_all

lemma split_run_cases:
  assumes "g' \<in> set (split_run bb c l w v g (ptr # rest))"
  shows "g' = g \<or> g' \<in> set (split_run bb c l w v [ptr] rest) \<or>
         g' \<in> set (split_run bb c l w v (g @ [ptr]) rest)"
  using assms by (simp split: if_splits) blast

lemma split_run_nonempty:
  "g \<noteq> [] \<Longrightarrow> g' \<in> set (split_run bb c l w v g rest) \<Longrightarrow> g' \<noteq> []"
proof (induction rest arbitrary: g)
  case Nil
  then show ?case by simp
next
  case (Cons ptr rest)
  show ?case
    using split_run_cases[OF Cons.prems(2)] Cons.prems(1) Cons.IH[of "[ptr]"]
      Cons.IH[of "g @ [ptr]"] by blast
qed

lemma split_run_room:
  assumes mrs: "max_record_size l (cmp_order c) w v \<le> 8 * bb"
  shows "g \<noteq> [] \<Longrightarrow> length (block_bits c l w v g) \<le> 8 * bb \<Longrightarrow>
         g' \<in> set (split_run bb c l w v g rest) \<Longrightarrow> length (block_bits c l w v g') \<le> 8 * bb"
proof (induction rest arbitrary: g)
  case Nil
  then show ?case by simp
next
  case (Cons ptr rest)
  show ?case
  proof (cases "8 * bb - length (block_bits c l w v g) < max_record_size l (cmp_order c) w v")
    case True
    have "length (block_bits c l w v [ptr]) \<le> 8 * bb"
      using explicit_le_max[of c w v l] mrs by simp
    then show ?thesis
      using True Cons.prems(3) Cons.prems(2) Cons.IH[of "[ptr]"] by auto
  next
    case False
    have "length (record_bits c l w v ptr (last g)) \<le> max_record_size l (cmp_order c) w v"
      by (rule length_record_bits)
    then have "length (block_bits c l w v (g @ [ptr])) \<le> 8 * bb"
      using False Cons.prems(1,2) by (simp add: block_bits_snoc)
    then show ?thesis
      using False Cons.prems(3) Cons.IH[of "g @ [ptr]"] by auto
  qed
qed

lemma split_run_fits:
  "list_all P (g @ rest) \<Longrightarrow> g' \<in> set (split_run bb c l w v g rest) \<Longrightarrow> list_all P g'"
proof (induction rest arbitrary: g)
  case Nil
  then show ?case by simp
next
  case (Cons ptr rest)
  have a: "list_all P ([ptr] @ rest)" and b: "list_all P ((g @ [ptr]) @ rest)"
    and c: "list_all P g"
    using Cons.prems(1) by simp_all
  show ?case
    using split_run_cases[OF Cons.prems(2)] c Cons.IH[OF a] Cons.IH[OF b] by blast
qed

lemma split_run_successively:
  "successively P (g @ rest) \<Longrightarrow> g' \<in> set (split_run bb c l w v g rest) \<Longrightarrow> successively P g'"
proof (induction rest arbitrary: g)
  case Nil
  then show ?case by simp
next
  case (Cons ptr rest)
  have b: "successively P ((g @ [ptr]) @ rest)"
    using Cons.prems(1) by simp
  have a: "successively P ([ptr] @ rest)"
    using Cons.prems(1) by (simp add: successively_append_iff)
  have c: "successively P g"
    using Cons.prems(1) by (simp add: successively_append_iff)
  show ?case
    using split_run_cases[OF Cons.prems(2)] c Cons.IH[OF a] Cons.IH[OF b] by blast
qed
lemma save_closed_block:
  "save (of_nat (length g)) (block_bits c l w v g) bb os = os @ closed_block bb c l w v g"
  by (simp add: save_def closed_block_def)

lemma write_step_flush:
  assumes f: "fits (cmp_order c) w v ptr"
    and full: "bits_left bb (length (ws_buffer st)) < max_record_size l (cmp_order c) w v"
  shows "write_step bb c l w v ptr st
           = Some (st\<lparr> ws_os := save (ngrams_in_block st) (ws_buffer st) bb (ws_os st),
                       ws_buffer := explicit_bits (cmp_order c) w v ptr,
                       written := encoded st, ngrams_in_block := 0, prev_ptr := ptr \<rparr>)"
  using full explicit_write_ok[OF f, of "[]"] by (simp add: write_step_def)

lemma write_step_append:
  assumes ok: "comparator_ok c" and f: "fits (cmp_order c) w v ptr"
    and lp: "length (ng_words (prev_ptr st)) = cmp_order c"
    and ne: "ng_words ptr \<noteq> ng_words (prev_ptr st)"
    and room: "\<not> bits_left bb (length (ws_buffer st))
                  < max_record_size (ceil_log2 (cmp_order c + 1)) (cmp_order c) w v"
  shows "write_step bb c (ceil_log2 (cmp_order c + 1)) w v ptr st
           = Some (st\<lparr> ws_buffer := ws_buffer st @
                          record_bits c (ceil_log2 (cmp_order c + 1)) w v ptr (prev_ptr st),
                       prev_ptr := ptr \<rparr>)"
  using room encode_record_ok[OF ok f lp ne, of "ws_buffer st"] by (simp add: write_step_def)

text \<open>
  The loop, started with the current block holding the group \<open>g\<close>, closes the blocks of
  all groups of \<open>split_run\<close> but the last, and ends with the last group in its buffer.
\<close>

lemma write_loop_ok:
  assumes ok: "comparator_ok c" and bb: "8 * bb < 2 ^ 64"
    and mrs: "max_record_size (ceil_log2 (cmp_order c + 1)) (cmp_order c) w v \<le> 8 * bb"
  shows "list_all (fits (cmp_order c) w v) (g @ rest) \<Longrightarrow>
    successively (\<lambda>a b. ng_words a \<noteq> ng_words b) (g @ rest) \<Longrightarrow>
    g \<noteq> [] \<Longrightarrow>
    ws_buffer st = block_bits c (ceil_log2 (cmp_order c + 1)) w v g \<Longrightarrow>
    prev_ptr st = last g \<Longrightarrow>
    ngrams_in_block st = of_nat (length g) \<Longrightarrow>
    length (block_bits c (ceil_log2 (cmp_order c + 1)) w v g) \<le> 8 * bb \<Longrightarrow>
    \<exists>st'. write_loop bb c (ceil_log2 (cmp_order c + 1)) w v rest st = Some st' \<and>
      ws_os st' = ws_os st @ concat (map (closed_block bb c (ceil_log2 (cmp_order c + 1)) w v)
          (butlast (split_run bb c (ceil_log2 (cmp_order c + 1)) w v g rest))) \<and>
      ws_buffer st' = block_bits c (ceil_log2 (cmp_order c + 1)) w v
          (last (split_run bb c (ceil_log2 (cmp_order c + 1)) w v g rest)) \<and>
      ngrams_in_block st' = of_nat
          (length (last (split_run bb c (ceil_log2 (cmp_order c + 1)) w v g rest))) \<and>
      (written st' = written st \<or>
       (\<exists>j<length rest. written st' = encoded st + of_nat j))"
proof (induction rest arbitrary: g st)
  case Nil
  then show ?case by simp
next
  case (Cons ptr rest)
  let ?N = "cmp_order c"
  let ?l = "ceil_log2 (?N + 1)"
  have fp: "fits ?N w v ptr"
    using Cons.prems(1) by simp
  have fl: "fits ?N w v (last g)"
    using Cons.prems(1,3) by (simp add: list_all_iff)
  have lp: "length (ng_words (prev_ptr st)) = ?N"
    using fl Cons.prems(5) by (simp add: fits_def)
  have "successively (\<lambda>a b. ng_words a \<noteq> ng_words b) (g @ [ptr])"
    using Cons.prems(2) successively_append_iff[of _ "g @ [ptr]" rest] by simp
  then have ne: "ng_words ptr \<noteq> ng_words (prev_ptr st)"
    using Cons.prems(3,5) by (auto simp: successively_append_iff)
  have left: "bits_left bb (length (ws_buffer st)) = 8 * bb - length (block_bits c ?l w v g)"
    using bits_left_eq[OF _ bb] Cons.prems(4,7) by simp
  show ?case
  proof (cases "8 * bb - length (block_bits c ?l w v g) < max_record_size ?l ?N w v")
    case True
    let ?st1 = "st\<lparr> ws_os := ws_os st @ closed_block bb c ?l w v g,
                     ws_buffer := explicit_bits ?N w v ptr,
                     written := encoded st, ngrams_in_block := 0, prev_ptr := ptr \<rparr>"
    have step: "write_step bb c ?l w v ptr st = Some ?st1"
      using write_step_flush[OF fp, of bb st ?l] True left Cons.prems(4,6)
      by (simp add: save_closed_block)
    let ?st2 = "?st1\<lparr> encoded := encoded ?st1 + 1, ngrams_in_block := ngrams_in_block ?st1 + 1 \<rparr>"
    have "\<exists>st'. write_loop bb c ?l w v rest ?st2 = Some st' \<and>
      ws_os st' = ws_os ?st2 @ concat (map (closed_block bb c ?l w v)
          (butlast (split_run bb c ?l w v [ptr] rest))) \<and>
      ws_buffer st' = block_bits c ?l w v (last (split_run bb c ?l w v [ptr] rest)) \<and>
      ngrams_in_block st' = of_nat (length (last (split_run bb c ?l w v [ptr] rest))) \<and>
      (written st' = written ?st2 \<or> (\<exists>j<length rest. written st' = encoded ?st2 + of_nat j))"
    proof (rule Cons.IH)
      show "list_all (fits ?N w v) ([ptr] @ rest)"
        using Cons.prems(1) by simp
      show "successively (\<lambda>a b. ng_words a \<noteq> ng_words b) ([ptr] @ rest)"
        using Cons.prems(2) by (simp add: successively_append_iff)
      show "length (block_bits c ?l w v [ptr]) \<le> 8 * bb"
        using explicit_le_max[of c w v ?l] mrs by simp
    qed simp_all
    then obtain st' where st': "write_loop bb c ?l w v rest ?st2 = Some st'"
      "ws_os st' = ws_os ?st2 @ concat (map (closed_block bb c ?l w v)
          (butlast (split_run bb c ?l w v [ptr] rest)))"
      "ws_buffer st' = block_bits c ?l w v (last (split_run bb c ?l w v [ptr] rest))"
      "ngrams_in_block st' = of_nat (length (last (split_run bb c ?l w v [ptr] rest)))"
      "written st' = written ?st2 \<or> (\<exists>j<length rest. written st' = encoded ?st2 + of_nat j)"
      by blast
    have sp: "split_run bb c ?l w v g (ptr # rest) = g # split_run bb c ?l w v [ptr] rest"
      using True by simp
    have wr: "written st' = written st \<or>
       (\<exists>j<length (ptr # rest). written st' = encoded st + of_nat j)"
    proof -
      from st'(5) consider "written st' = encoded st"
        | j where "j < length rest" "written st' = encoded st + 1 + of_nat j"
        by auto
      then show ?thesis
      proof cases
        case 1
        then have "written st' = encoded st + of_nat 0"
          by simp
        then show ?thesis
          by (intro disjI2 exI[of _ 0]) simp
      next
        case 2
        then have "written st' = encoded st + of_nat (Suc j)"
          by simp
        then show ?thesis
          using 2(1) by (intro disjI2 exI[of _ "Suc j"]) simp
      qed
    qed
    show ?thesis
      using step st'(1,2,3,4) wr True by simp
  next
    case False
    let ?st1 = "st\<lparr> ws_buffer := ws_buffer st @ record_bits c ?l w v ptr (prev_ptr st),
                     prev_ptr := ptr \<rparr>"
    have step: "write_step bb c ?l w v ptr st = Some ?st1"
      using write_step_append[OF ok fp lp ne] False left by simp
    let ?st2 = "?st1\<lparr> encoded := encoded ?st1 + 1, ngrams_in_block := ngrams_in_block ?st1 + 1 \<rparr>"
    have rb: "length (record_bits c ?l w v ptr (last g)) \<le> max_record_size ?l ?N w v"
      by (rule length_record_bits)
    have "\<exists>st'. write_loop bb c ?l w v rest ?st2 = Some st' \<and>
      ws_os st' = ws_os ?st2 @ concat (map (closed_block bb c ?l w v)
          (butlast (split_run bb c ?l w v (g @ [ptr]) rest))) \<and>
      ws_buffer st' = block_bits c ?l w v (last (split_run bb c ?l w v (g @ [ptr]) rest)) \<and>
      ngrams_in_block st' = of_nat (length (last (split_run bb c ?l w v (g @ [ptr]) rest))) \<and>
      (written st' = written ?st2 \<or> (\<exists>j<length rest. written st' = encoded ?st2 + of_nat j))"
    proof (rule Cons.IH)
      show "list_all (fits ?N w v) ((g @ [ptr]) @ rest)"
        using Cons.prems(1) by simp
      show "successively (\<lambda>a b. ng_words a \<noteq> ng_words b) ((g @ [ptr]) @ rest)"
        using Cons.prems(2) by simp
      show "ws_buffer ?st2 = block_bits c ?l w v (g @ [ptr])"
        using Cons.prems(3,4,5) by (simp add: block_bits_snoc)
      show "ngrams_in_block ?st2 = of_nat (length (g @ [ptr]))"
        using Cons.prems(6) by simp
      show "length (block_bits c ?l w v (g @ [ptr])) \<le> 8 * bb"
        using False rb Cons.prems(3,7) by (simp add: block_bits_snoc)
    qed simp_all
    then obtain st' where st': "write_loop bb c ?l w v rest ?st2 = Some st'"
      "ws_os st' = ws_os ?st2 @ concat (map (closed_block bb c ?l w v)
          (butlast (split_run bb c ?l w v (g @ [ptr]) rest)))"
      "ws_buffer st' = block_bits c ?l w v (last (split_run bb c ?l w v (g @ [ptr]) rest))"
      "ngrams_in_block st' = of_nat (length (last (split_run bb c ?l w v (g @ [ptr]) rest)))"
      "written st' = written ?st2 \<or> (\<exists>j<length rest. written st' = encoded ?st2 + of_nat j)"
      by blast
    have sp: "split_run bb c ?l w v g (ptr # rest) = split_run bb c ?l w v (g @ [ptr]) rest"
      using False by simp
    have wr: "written st' = written st \<or>
       (\<exists>j<length (ptr # rest). written st' = encoded st + of_nat j)"
    proof -
      from st'(5) consider "written st' = written st"
        | j where "j < length rest" "written st' = encoded st + 1 + of_nat j"
        by auto
      then show ?thesis
      proof cases
        case 1
        then show ?thesis by simp
      next
        case 2
        then have "written st' = encoded st + of_nat (Suc j)"
          by simp
        then show ?thesis
          using 2(1) by (intro disjI2 exI[of _ "Suc j"]) simp
      qed
    qed
    show ?thesis
      using step st'(1,2,3,4) wr False by simp
  qed
qed
subsection \<open>The layout of the stream\<close>

lemma word_width_eq:
  assumes "max_word_id stats < 2 ^ 32"
  shows "word_width stats = ceil_log2 (max_word_id stats + 1)" and "word_width stats < 256"
proof -
  have "max_word_id stats + 1 \<le> 2 ^ 32"
    using assms by simp
  then have "ceil_log2 (max_word_id stats + 1) \<le> 32"
    by (rule ceil_log2_least)
  then show "word_width stats = ceil_log2 (max_word_id stats + 1)" and "word_width stats < 256"
    by (simp_all add: word_width_def)
qed

lemma count_width_eq:
  assumes "max_count stats < 2 ^ 64"
  shows "count_width stats = ceil_log2 (max_count stats + 1)" and "count_width stats < 256"
proof -
  have "max_count stats + 1 \<le> 2 ^ 64"
    using assms by simp
  then have "ceil_log2 (max_count stats + 1) \<le> 64"
    by (rule ceil_log2_least)
  then show "count_width stats = ceil_log2 (max_count stats + 1)" and "count_width stats < 256"
    by (simp_all add: count_width_def)
qed

lemma stats_cover_fits:
  assumes cover: "stats_cover stats run"
    and lens: "list_all (\<lambda>r. length (ng_words r) = N) run"
  shows "list_all (fits N (word_width stats) (count_width stats)) run"
proof -
  have M: "max_word_id stats < 2 ^ 32" and P: "max_count stats < 2 ^ 64"
    using cover by (simp_all add: stats_cover_def)
  have "fits N (word_width stats) (count_width stats) r" if r: "r \<in> set run" for r
  proof -
    have len: "length (ng_words r) = N"
      using lens r by (simp add: list_all_iff)
    have words: "\<forall>x\<in>set (ng_words r). unat x \<le> max_word_id stats"
      and val: "unat (ng_value r) \<le> max_count stats"
      using cover r by (simp_all add: stats_cover_def list_all_iff)
    have "unat x < 2 ^ word_width stats" if "x \<in> set (ng_words r)" for x
    proof -
      have "unat x < max_word_id stats + 1"
        using words that by fastforce
      then show ?thesis
        unfolding word_width_eq(1)[OF M] by (rule less_ceil_log2)
    qed
    moreover have "unat (ng_value r) < 2 ^ count_width stats"
    proof -
      have "unat (ng_value r) < max_count stats + 1"
        using val by simp
      then show ?thesis
        unfolding count_width_eq(1)[OF P] by (rule less_ceil_log2)
    qed
    ultimately show ?thesis
      using len by (simp add: fits_def list_all_iff)
  qed
  then show ?thesis
    by (simp add: list_all_iff)
qed

lemma increasing_distinct:
  assumes "comparator_ok c" and "successively (\<lambda>a b. cmp_compare c a b < 0) run"
  shows "successively (\<lambda>a b. ng_words a \<noteq> ng_words b) run"
  using assms(2)
proof (rule successively_mono)
  fix a b assume "cmp_compare c a b < 0"
  then show "ng_words a \<noteq> ng_words b"
    using assms(1) unfolding comparator_ok_def by blast
qed

lemma write_block_layout:
  assumes ok: "comparator_ok c"
    and cover: "stats_cover stats (first # rest)"
    and lens: "list_all (\<lambda>r. length (ng_words r) = cmp_order c) (first # rest)"
    and incr: "successively (\<lambda>a b. cmp_compare c a b < 0) (first # rest)"
    and bb: "8 * bb < 2 ^ 64"
    and mrs: "max_record_size (ceil_log2 (cmp_order c + 1)) (cmp_order c)
                (word_width stats) (count_width stats) \<le> 8 * bb"
    and len: "length (first # rest) < 2 ^ 64"
  shows "write_block bb (new_writer c) os (first # rest) (of_nat (length (first # rest))) stats
     = Some (os @ [of_nat (word_width stats), of_nat (count_width stats)] @
             run_bytes bb c (ceil_log2 (cmp_order c + 1)) (word_width stats) (count_width stats)
               (split_run bb c (ceil_log2 (cmp_order c + 1)) (word_width stats)
                  (count_width stats) [first] rest))"
proof -
  let ?N = "cmp_order c"
  let ?l = "ceil_log2 (?N + 1)"
  let ?w = "word_width stats" and ?v = "count_width stats"
  let ?gs = "split_run bb c ?l ?w ?v [first] rest"
  let ?os1 = "os @ save_pod8 ?w @ save_pod8 ?v"
  have fit: "list_all (fits ?N ?w ?v) ([first] @ rest)"
    using stats_cover_fits[OF cover lens] by simp
  have dist: "successively (\<lambda>a b. ng_words a \<noteq> ng_words b) ([first] @ rest)"
    using increasing_distinct[OF ok incr] by simp
  have ex: "explicit_write ?N ?w ?v first [] = Some (explicit_bits ?N ?w ?v first)"
    using explicit_write_ok[of ?N ?w ?v first "[]"] fit by simp
  let ?st = "\<lparr> ws_os = ?os1, ws_buffer = explicit_bits ?N ?w ?v first, ngrams_in_block = 1,
               written = 0, encoded = 0, prev_ptr = first \<rparr>"
  have "\<exists>st'. write_loop bb c ?l ?w ?v rest ?st = Some st' \<and>
      ws_os st' = ws_os ?st @ concat (map (closed_block bb c ?l ?w ?v) (butlast ?gs)) \<and>
      ws_buffer st' = block_bits c ?l ?w ?v (last ?gs) \<and>
      ngrams_in_block st' = of_nat (length (last ?gs)) \<and>
      (written st' = written ?st \<or> (\<exists>j<length rest. written st' = encoded ?st + of_nat j))"
  proof (rule write_loop_ok[OF ok bb mrs fit dist])
    show "length (block_bits c ?l ?w ?v [first]) \<le> 8 * bb"
      using explicit_le_max[of c ?w ?v ?l] mrs by simp
  qed simp_all
  then obtain st' where st': "write_loop bb c ?l ?w ?v rest ?st = Some st'"
      "ws_os st' = ?os1 @ concat (map (closed_block bb c ?l ?w ?v) (butlast ?gs))"
      "ws_buffer st' = block_bits c ?l ?w ?v (last ?gs)"
      "ngrams_in_block st' = of_nat (length (last ?gs))"
      "written st' = 0 \<or> (\<exists>j<length rest. written st' = of_nat j)"
    by auto
  have "\<exists>j. j < length (first # rest) \<and> written st' = of_nat j"
  proof (cases "written st' = 0")
    case True
    then have "0 < length (first # rest) \<and> written st' = of_nat 0"
      by simp
    then show ?thesis
      by (rule exI)
  next
    case False
    then obtain j where "j < length rest" "written st' = of_nat j"
      using st'(5) by blast
    then have "j < length (first # rest) \<and> written st' = of_nat j"
      by simp
    then show ?thesis
      by (rule exI)
  qed
  then obtain j where j: "j < length (first # rest)" "written st' = of_nat j"
    by blast
  have ne: "written st' \<noteq> of_nat (length (first # rest))"
    using of_nat_eq_64[of j "length (first # rest)"] j len by auto
  have "save (ngrams_in_block st') (ws_buffer st') ((length (ws_buffer st') + 7) div 8) (ws_os st')
      = ?os1 @ run_bytes bb c ?l ?w ?v ?gs"
    using st'(2,3,4) by (simp add: save_def run_bytes_def last_block_def)
  then show ?thesis
    using ex st'(1) ne
    by (simp add: write_block_def Let_def new_writer_def save_pod8_def
        word_width_def count_width_def)
qed
subsection \<open>Reading the stream back\<close>

lemma length_closed_block [simp]: "length (closed_block bb c l w v g) = 8 + bb"
  by (simp add: closed_block_def)

lemma save_pod64_not_Nil [simp]: "save_pod64 x \<noteq> []"
proof
  assume "save_pod64 x = []"
  then have "length (save_pod64 x) = length ([] :: byte list)"
    by (rule arg_cong)
  then show False
    by simp
qed

lemma closed_block_not_Nil [simp]: "closed_block bb c l w v g \<noteq> []"
  by (simp add: closed_block_def)

lemma read_blocks_last:
  assumes "length (block_bits c l w v g) \<le> 8 * bb"
  shows "read_blocks bb (last_block c l w v g)
     = Some [(of_nat (length g),
              byte_chunks ((length (block_bits c l w v g) + 7) div 8) (block_bits c l w v g))]"
proof -
  let ?k = "(length (block_bits c l w v g) + 7) div 8"
  let ?body = "byte_chunks ?k (block_bits c l w v g)"
  let ?s = "save_pod64 (of_nat (length g)) @ ?body"
  have k: "?k \<le> bb"
    using assms by simp
  have "?s \<noteq> []" and "\<not> length ?s < 8"
    by simp_all
  moreover have "take 8 ?s = save_pod64 (of_nat (length g))"
    by simp
  moreover have "take bb (drop 8 ?s) = ?body"
    using k by simp
  moreover have "drop (8 + bb) ?s = []"
    using k by simp
  moreover have "read_blocks bb [] = Some []"
    by (subst read_blocks.simps) simp
  ultimately have "read_blocks bb ?s = Some [(load_pod64 (save_pod64 (of_nat (length g))), ?body)]"
    by (subst read_blocks.simps) (simp only: if_False map_option_case option.simps)
  then show ?thesis
    by (simp add: last_block_def load_save_pod64)
qed

lemma read_blocks_closed:
  "read_blocks bb (closed_block bb c l w v g @ s)
     = map_option ((#) (of_nat (length g), byte_chunks bb (block_bits c l w v g)))
         (read_blocks bb s)"
proof -
  let ?body = "byte_chunks bb (block_bits c l w v g)"
  let ?s = "closed_block bb c l w v g @ s"
  have "?s \<noteq> []" and "\<not> length ?s < 8"
    by simp_all
  moreover have "take 8 ?s = save_pod64 (of_nat (length g))"
    by (simp add: closed_block_def)
  moreover have "take bb (drop 8 ?s) = ?body"
    by (simp add: closed_block_def)
  moreover have "drop (8 + bb) ?s = s"
    by (simp add: closed_block_def)
  ultimately have "read_blocks bb ?s
      = map_option ((#) (load_pod64 (save_pod64 (of_nat (length g))), ?body)) (read_blocks bb s)"
    by (subst read_blocks.simps) (simp only: if_False)
  then show ?thesis
    by (simp add: load_save_pod64)
qed

lemma read_blocks_run:
  assumes "length (block_bits c l w v g2) \<le> 8 * bb"
  shows "read_blocks bb (concat (map (closed_block bb c l w v) gs1) @ last_block c l w v g2)
     = Some (map (\<lambda>g. (of_nat (length g), byte_chunks bb (block_bits c l w v g))) gs1 @
             [(of_nat (length g2),
               byte_chunks ((length (block_bits c l w v g2) + 7) div 8)
                 (block_bits c l w v g2))])"
proof (induction gs1)
  case Nil
  then show ?case
    using read_blocks_last[OF assms] by simp
next
  case (Cons g gs1)
  have "read_blocks bb (closed_block bb c l w v g @
          (concat (map (closed_block bb c l w v) gs1) @ last_block c l w v g2))
     = map_option ((#) (of_nat (length g), byte_chunks bb (block_bits c l w v g)))
         (read_blocks bb (concat (map (closed_block bb c l w v) gs1) @ last_block c l w v g2))"
    by (rule read_blocks_closed)
  then show ?case
    using Cons by simp
qed

lemma those_map_Some:
  "(\<And>x. x \<in> set xs \<Longrightarrow> f x = Some (h x)) \<Longrightarrow> those (map f xs) = Some (map h xs)"
  by (induction xs) simp_all

lemma those_append:
  "those (xs @ ys) = (case those xs of None \<Rightarrow> None
                      | Some as \<Rightarrow> (case those ys of None \<Rightarrow> None | Some bs \<Rightarrow> Some (as @ bs)))"
  by (induction xs) (auto split: option.splits)

lemma unat_byte: "x < 256 \<Longrightarrow> unat (of_nat x :: byte) = x"
  by (simp add: unat_of_nat)

text \<open>
  A stream laid out block by block decodes to the concatenation of the groups, when each
  group is not empty, fits the widths, has adjacent records with different n-grams, and
  has bits that fit into a block.
\<close>

lemma decode_stream_run:
  assumes ok: "comparator_ok c" and w: "w < 256" and v: "v < 256"
    and gs: "gs \<noteq> []"
    and each: "\<And>g. g \<in> set gs \<Longrightarrow>
        g \<noteq> [] \<and> length g < 2 ^ 64 \<and> list_all (fits (cmp_order c) w v) g \<and>
        successively (\<lambda>a b. ng_words a \<noteq> ng_words b) g \<and>
        length (block_bits c (ceil_log2 (cmp_order c + 1)) w v g) \<le> 8 * bb"
  shows "decode_stream c bb ([of_nat w, of_nat v] @
           run_bytes bb c (ceil_log2 (cmp_order c + 1)) w v gs) = Some (concat gs)"
proof -
  let ?l = "ceil_log2 (cmp_order c + 1)"
  let ?closed = "\<lambda>g. (of_nat (length g) :: 64 word, byte_chunks bb (block_bits c ?l w v g))"
  let ?last = "\<lambda>g. (of_nat (length g) :: 64 word,
      byte_chunks ((length (block_bits c ?l w v g) + 7) div 8) (block_bits c ?l w v g))"
  let ?dec = "\<lambda>(n, body). decode_block c n w v body"
  have last_in: "last gs \<in> set gs"
    using gs by simp
  have blocks: "read_blocks bb (run_bytes bb c ?l w v gs)
      = Some (map ?closed (butlast gs) @ [?last (last gs)])"
    unfolding run_bytes_def using each[OF last_in] by (intro read_blocks_run) simp
  have d1: "?dec (?closed g) = Some g" if "g \<in> set (butlast gs)" for g
  proof -
    have "g \<in> set gs"
      using that by (rule in_set_butlastD)
    then show ?thesis
      using decode_block_ok[OF ok, of w v g bb] each[of g] by simp
  qed
  have d2: "?dec (?last (last gs)) = Some (last gs)"
    using decode_block_ok[OF ok, of w v "last gs"
        "(length (block_bits c ?l w v (last gs)) + 7) div 8"] each[OF last_in]
    by simp
  have "those (map ?dec (map ?closed (butlast gs))) = Some (map (\<lambda>g. g) (butlast gs))"
    unfolding map_map by (rule those_map_Some) (use d1 in simp)
  then have "those (map ?dec (map ?closed (butlast gs) @ [?last (last gs)]))
      = Some (butlast gs @ [last gs])"
    using d2 by (simp add: those_append)
  then have "those (map ?dec (map ?closed (butlast gs) @ [?last (last gs)])) = Some gs"
    using gs by simp
  then show ?thesis
    using blocks unat_byte[OF w] unat_byte[OF v] by (simp add: decode_stream_def)
qed
subsection \<open>Prefix order and context order are comparators\<close>

lemma compare_along_less_differs:
  assumes "compare_along t x y < 0"
  shows "ng_words x \<noteq> ng_words y"
proof
  assume eq: "ng_words x = ng_words y"
  have "word_at x i = word_at y i" for i
    by (simp add: word_at_def eq)
  then have dw: "dropWhile (\<lambda>i. word_at x i = word_at y i) t = []"
    by simp
  have "compare_along t x y = 0"
    unfolding compare_along_def dw by simp
  then show False
    using assms by simp
qed

lemma funpow_incr: "((\<lambda>i :: int. i + 1) ^^ k) a = a + int k"
  by (induction k) simp_all

lemma funpow_decr: "((\<lambda>i :: int. i - 1) ^^ k) a = a - int k"
  by (induction k) simp_all

lemma traversal_prefix_order: "traversal (prefix_order N) = map int [0..<N]"
  by (simp add: traversal_def prefix_order_def funpow_incr)

lemma traversal_context_order: "traversal (context_order N) = rev (map int [0..<N])"
proof (rule nth_equalityI)
  show "length (traversal (context_order N)) = length (rev (map int [0..<N]))"
    by (simp add: traversal_def context_order_def)
next
  fix k assume "k < length (traversal (context_order N))"
  then have k: "k < N"
    by (simp add: traversal_def context_order_def)
  then have "rev (map int [0..<N]) ! k = int (N - Suc k)"
    by (simp add: rev_nth)
  moreover have "traversal (context_order N) ! k = int N - 1 - int k"
    using k by (simp add: traversal_def context_order_def funpow_decr)
  ultimately show "traversal (context_order N) ! k = rev (map int [0..<N]) ! k"
    using k by simp
qed

lemma set_int_upt: "set (map int [0..<N]) = {0..<int N}"
proof
  show "set (map int [0..<N]) \<subseteq> {0..<int N}"
    by auto
  show "{0..<int N} \<subseteq> set (map int [0..<N])"
  proof
    fix i assume "i \<in> {0..<int N}"
    then have "nat i < N" and "int (nat i) = i"
      by (simp_all add: nat_less_iff)
    then have "int (nat i) \<in> int ` set [0..<N]"
      by (intro imageI) simp
    then show "i \<in> set (map int [0..<N])"
      using \<open>int (nat i) = i\<close> by simp
  qed
qed

lemma distinct_int_upt: "distinct (map int [0..<N])"
  by (simp add: distinct_map)

lemma prefix_order_ok:
  assumes "0 < N" and "N < 256"
  shows "comparator_ok (prefix_order N)"
proof -
  have t: "traversal (prefix_order N) = map int [0..<N]"
    by (rule traversal_prefix_order)
  have "last (map int [0..<N]) = int N - 1"
    using assms(1) by (cases N) (simp_all add: last_map)
  then show ?thesis
    unfolding comparator_ok_def t
    using assms set_int_upt[of N] distinct_int_upt[of N]
    by (auto simp: prefix_order_def dest: compare_along_less_differs)
qed

lemma context_order_ok:
  assumes "0 < N" and "N < 256"
  shows "comparator_ok (context_order N)"
proof -
  have t: "traversal (context_order N) = rev (map int [0..<N])"
    by (rule traversal_context_order)
  have l: "last (rev (map int [0..<N])) = 0"
    using assms(1) by (simp add: last_rev hd_map upt_conv_Cons)
  have adv: "rev (map int [0..<N]) ! k = int N - 1 - int k" if "k < N" for k
    using that by (simp add: rev_nth)
  show ?thesis
    unfolding comparator_ok_def t
    using assms set_int_upt[of N] distinct_int_upt[of N] l adv
    by (auto simp: context_order_def dest: compare_along_less_differs)
qed

lemma default_block_room:
  assumes ok: "comparator_ok c" and M: "max_word_id stats < 2 ^ 32"
    and P: "max_count stats < 2 ^ 64"
  shows "8 * BLOCK_BYTES < (2 :: nat) ^ 64"
    and "max_record_size (ceil_log2 (cmp_order c + 1)) (cmp_order c)
           (word_width stats) (count_width stats) \<le> 8 * BLOCK_BYTES"
proof -
  show "8 * BLOCK_BYTES < (2 :: nat) ^ 64"
    by (simp add: BLOCK_BYTES_def)
  have N: "cmp_order c < 256"
    using ok by (simp add: comparator_ok_def)
  then have "cmp_order c + 1 \<le> 2 ^ 8"
    by simp
  then have l: "ceil_log2 (cmp_order c + 1) \<le> 8"
    by (rule ceil_log2_least)
  have "max_word_id stats + 1 \<le> 2 ^ 32"
    using M by simp
  then have w: "word_width stats \<le> 32"
    unfolding word_width_eq(1)[OF M] by (rule ceil_log2_least)
  have "max_count stats + 1 \<le> 2 ^ 64"
    using P by simp
  then have v: "count_width stats \<le> 64"
    unfolding count_width_eq(1)[OF P] by (rule ceil_log2_least)
  have "cmp_order c * word_width stats \<le> 256 * 32"
    using N w by (intro mult_mono) simp_all
  then show "max_record_size (ceil_log2 (cmp_order c + 1)) (cmp_order c)
           (word_width stats) (count_width stats) \<le> 8 * BLOCK_BYTES"
    using l v by (simp add: max_record_size_def BLOCK_BYTES_def)
qed
subsection \<open>The stream of a run\<close>

lemma length_le_concat: "g \<in> set gs \<Longrightarrow> length g \<le> length (concat gs)"
  by (induction gs) auto

lemma room_cases:
  assumes "comparator_ok c" and "stats_cover stats run"
    and "bb = BLOCK_BYTES \<or> block_room bb c stats"
  shows "block_room bb c stats"
  using assms default_block_room[of c stats]
  by (auto simp: block_room_def stats_cover_def)

text \<open>
  What \<open>write_block\<close> returns for a run that is strictly increasing under a comparator
  and covered by the statistics: the two width bytes, then the blocks of the groups. The
  groups are not empty, they make up the run, and each can be decoded on its own.
\<close>

lemma write_block_run:
  assumes ok: "comparator_ok c" and ne: "run \<noteq> []" and len: "length run < 2 ^ 64"
    and lens: "list_all (\<lambda>r. length (ng_words r) = cmp_order c) run"
    and incr: "successively (\<lambda>a b. cmp_compare c a b < 0) run"
    and cover: "stats_cover stats run"
    and room: "block_room bb c stats"
  shows "write_block bb (new_writer c) os run (of_nat (length run)) stats
     = Some (os @ [of_nat (word_width stats), of_nat (count_width stats)] @
             run_bytes bb c (ceil_log2 (cmp_order c + 1)) (word_width stats) (count_width stats)
               (run_groups bb c stats run))"
    and "concat (run_groups bb c stats run) = run"
    and "run_groups bb c stats run \<noteq> []"
    and "\<And>g. g \<in> set (run_groups bb c stats run) \<Longrightarrow>
        g \<noteq> [] \<and> length g < 2 ^ 64 \<and>
        list_all (fits (cmp_order c) (word_width stats) (count_width stats)) g \<and>
        successively (\<lambda>a b. ng_words a \<noteq> ng_words b) g \<and>
        length (block_bits c (ceil_log2 (cmp_order c + 1)) (word_width stats)
                  (count_width stats) g) \<le> 8 * bb"
proof -
  let ?N = "cmp_order c"
  let ?l = "ceil_log2 (?N + 1)"
  let ?w = "word_width stats" and ?v = "count_width stats"
  obtain first rest where run: "run = first # rest"
    using ne by (cases run) auto
  have bb: "8 * bb < 2 ^ 64" and mrs: "max_record_size ?l ?N ?w ?v \<le> 8 * bb"
    using room by (simp_all add: block_room_def)
  have gs: "run_groups bb c stats run = split_run bb c ?l ?w ?v [first] rest"
    by (simp add: run_groups_def run)
  show "write_block bb (new_writer c) os run (of_nat (length run)) stats
     = Some (os @ [of_nat ?w, of_nat ?v] @ run_bytes bb c ?l ?w ?v (run_groups bb c stats run))"
    using write_block_layout[OF ok cover[unfolded run] lens[unfolded run] incr[unfolded run]
        bb mrs len[unfolded run], of os]
    by (simp add: run run_groups_def)
  show cc: "concat (run_groups bb c stats run) = run"
    unfolding gs by (simp add: split_run_concat run)
  show "run_groups bb c stats run \<noteq> []"
    unfolding gs by simp
  fix g assume g: "g \<in> set (run_groups bb c stats run)"
  have fit: "list_all (fits ?N ?w ?v) ([first] @ rest)"
    using stats_cover_fits[OF cover lens] run by simp
  have dist: "successively (\<lambda>a b. ng_words a \<noteq> ng_words b) ([first] @ rest)"
    using increasing_distinct[OF ok incr] run by simp
  have g': "g \<in> set (split_run bb c ?l ?w ?v [first] rest)"
    using g gs by simp
  have "g \<noteq> []"
    using split_run_nonempty[OF _ g'] by simp
  moreover have "length g < 2 ^ 64"
    using length_le_concat[OF g] cc len by simp
  moreover have "list_all (fits ?N ?w ?v) g"
    using fit g' by (rule split_run_fits)
  moreover have "successively (\<lambda>a b. ng_words a \<noteq> ng_words b) g"
    using dist g' by (rule split_run_successively)
  moreover have "length (block_bits c ?l ?w ?v g) \<le> 8 * bb"
  proof (rule split_run_room[OF mrs _ _ g'])
    show "length (block_bits c ?l ?w ?v [first]) \<le> 8 * bb"
      using explicit_le_max[of c ?w ?v ?l] mrs by simp
  qed simp
  ultimately show "g \<noteq> [] \<and> length g < 2 ^ 64 \<and> list_all (fits ?N ?w ?v) g \<and>
        successively (\<lambda>a b. ng_words a \<noteq> ng_words b) g \<and>
        length (block_bits c ?l ?w ?v g) \<le> 8 * bb"
    by simp
qed

text \<open>
  C1. Let \<open>run\<close> be a non-empty list of records of order \<open>N\<close> that is strictly increasing
  under the comparator, with statistics that bound its word ids and payloads. Then
  \<open>write_block\<close> succeeds, and decoding the bytes it appended, block by block with the
  \<open>fc_iterator\<close> of \<open>fc::ngrams_block\<close> under the same comparator and the widths read
  from the stream, yields exactly the records of \<open>run\<close> in the same order. This holds
  for the block size \<open>BLOCK_BYTES\<close> and for every block size with room for a record.
\<close>

theorem codec_round_trip:
  assumes "comparator_ok c" and "run \<noteq> []" and "length run < 2 ^ 64"
    and "list_all (\<lambda>r. length (ng_words r) = cmp_order c) run"
    and "successively (\<lambda>a b. cmp_compare c a b < 0) run"
    and "stats_cover stats run"
    and "bb = BLOCK_BYTES \<or> block_room bb c stats"
  shows "\<exists>out. write_block bb (new_writer c) os run (of_nat (length run)) stats = Some (os @ out) \<and>
           decode_stream c bb out = Some run"
proof -
  have room: "block_room bb c stats"
    using assms(1,6,7) by (rule room_cases)
  note wb = write_block_run[OF assms(1-6) room]
  have M: "max_word_id stats < 2 ^ 32" and P: "max_count stats < 2 ^ 64"
    using assms(6) by (simp_all add: stats_cover_def)
  have "decode_stream c bb ([of_nat (word_width stats), of_nat (count_width stats)] @
           run_bytes bb c (ceil_log2 (cmp_order c + 1)) (word_width stats) (count_width stats)
             (run_groups bb c stats run))
      = Some (concat (run_groups bb c stats run))"
    using assms(1) word_width_eq(2)[OF M] count_width_eq(2)[OF P] wb(3) wb(4)
    by (rule decode_stream_run)
  then show ?thesis
    using wb(1)[of os] wb(2) by simp
qed
lemma s1_widths:
  "ceil_log2 (cmp_order (prefix_order 3) + 1) = 2"
  "word_width s1_stats = 3" "count_width s1_stats = 2"
  by (simp_all add: prefix_order_def word_width_def count_width_def s1_stats_def ceil_log2.simps)

lemma s1_run_ok:
  "s1_run \<noteq> []" "length s1_run < 2 ^ 64"
  "list_all (\<lambda>r. length (ng_words r) = cmp_order (prefix_order 3)) s1_run"
  "successively (\<lambda>a b. cmp_compare (prefix_order 3) a b < 0) s1_run"
  "stats_cover s1_stats s1_run"
  by (simp_all add: s1_run_def s1_cmp stats_cover_def s1_stats_def)
    (simp_all add: s1_rec_a_def s1_rec_b_def s1_rec_c_def prefix_order_def)

lemma cmp_order_prefix [simp]: "cmp_order (prefix_order N) = N"
  by (simp add: prefix_order_def)

lemma cmp_order_context [simp]: "cmp_order (context_order N) = N"
  by (simp add: context_order_def)

lemma ceil_log2_4: "ceil_log2 4 = 2"
  by (simp add: ceil_log2.simps)

lemma s1_room: "block_room 2 (prefix_order 3) s1_stats" "block_room 16 (prefix_order 3) s1_stats"
  by (simp_all add: block_room_def s1_widths(2,3) max_record_size_def ceil_log2_4)

theorem codec_round_trip_witness:
  "comparator_ok (prefix_order 3) \<and> s1_run \<noteq> [] \<and> length s1_run < 2 ^ 64 \<and>
   list_all (\<lambda>r. length (ng_words r) = cmp_order (prefix_order 3)) s1_run \<and>
   successively (\<lambda>a b. cmp_compare (prefix_order 3) a b < 0) s1_run \<and>
   stats_cover s1_stats s1_run \<and> block_room 2 (prefix_order 3) s1_stats \<and>
   (\<exists>out. write_block 2 (new_writer (prefix_order 3)) [] s1_run (of_nat (length s1_run)) s1_stats
             = Some ([] @ out) \<and>
      decode_stream (prefix_order 3) 2 out = Some s1_run)"
proof -
  have ok: "comparator_ok (prefix_order 3)"
    by (rule prefix_order_ok) simp_all
  have room: "2 = BLOCK_BYTES \<or> block_room 2 (prefix_order 3) s1_stats"
    using s1_room(1) by simp
  show ?thesis
    using codec_round_trip[OF ok s1_run_ok room, of "[]"] ok s1_run_ok s1_room(1)
    by (intro conjI)
qed

subsection \<open>Empty runs\<close>

text \<open>
  C10. \<open>write_block\<close> dereferences \<open>begin\<close> before any test: for an empty range the call
  is undefined, whatever the other arguments are. For a non-empty run that is strictly
  increasing and covered by the statistics the call is defined; the first block starts
  with the first record of the run, and every block that is written holds at least one
  record, so its record count is not zero.
\<close>

theorem write_block_empty_run:
  "write_block bb wr os [] n stats = None \<and>
   (comparator_ok c \<and> run \<noteq> [] \<and> length run < 2 ^ 64 \<and>
    list_all (\<lambda>r. length (ng_words r) = cmp_order c) run \<and>
    successively (\<lambda>a b. cmp_compare c a b < 0) run \<and>
    stats_cover stats run \<and> (bb = BLOCK_BYTES \<or> block_room bb c stats) \<longrightarrow>
      write_block bb (new_writer c) os run (of_nat (length run)) stats
        = Some (os @ [of_nat (word_width stats), of_nat (count_width stats)] @
                run_bytes bb c (ceil_log2 (cmp_order c + 1)) (word_width stats)
                  (count_width stats) (run_groups bb c stats run)) \<and>
      run_groups bb c stats run \<noteq> [] \<and>
      hd (concat (run_groups bb c stats run)) = hd run \<and>
      list_all (\<lambda>g. g \<noteq> [] \<and> (of_nat (length g) :: 64 word) \<noteq> 0)
        (run_groups bb c stats run))"
proof (intro conjI impI)
  show "write_block bb wr os [] n stats = None"
    by (simp add: write_block_def Let_def)
next
  assume a: "comparator_ok c \<and> run \<noteq> [] \<and> length run < 2 ^ 64 \<and>
    list_all (\<lambda>r. length (ng_words r) = cmp_order c) run \<and>
    successively (\<lambda>a b. cmp_compare c a b < 0) run \<and>
    stats_cover stats run \<and> (bb = BLOCK_BYTES \<or> block_room bb c stats)"
  then have room: "block_room bb c stats"
    using room_cases[of c stats run bb] by blast
  have h: "comparator_ok c" "run \<noteq> []" "length run < 2 ^ 64"
    "list_all (\<lambda>r. length (ng_words r) = cmp_order c) run"
    "successively (\<lambda>a b. cmp_compare c a b < 0) run" "stats_cover stats run"
    using a by simp_all
  note wb = write_block_run[OF h room]
  show "write_block bb (new_writer c) os run (of_nat (length run)) stats
        = Some (os @ [of_nat (word_width stats), of_nat (count_width stats)] @
                run_bytes bb c (ceil_log2 (cmp_order c + 1)) (word_width stats)
                  (count_width stats) (run_groups bb c stats run))"
    by (rule wb(1))
  show "run_groups bb c stats run \<noteq> []"
    by (rule wb(3))
  show "hd (concat (run_groups bb c stats run)) = hd run"
    by (simp only: wb(2))
  show "list_all (\<lambda>g. g \<noteq> [] \<and> (of_nat (length g) :: 64 word) \<noteq> 0)
        (run_groups bb c stats run)"
    unfolding list_all_iff
  proof
    fix g assume g: "g \<in> set (run_groups bb c stats run)"
    have ne: "g \<noteq> []" and len: "length g < 2 ^ 64"
      using wb(4)[OF g] by simp_all
    have "(of_nat (length g) :: 64 word) \<noteq> 0"
      using of_nat_eq_64[of "length g" 0] len ne by auto
    then show "g \<noteq> [] \<and> (of_nat (length g) :: 64 word) \<noteq> 0"
      using ne by simp
  qed
qed

lemma s1_lcp:
  "lcp_along (traversal (prefix_order 3)) s1_rec_b s1_rec_c = 2"
  "lcp_along (traversal (prefix_order 3)) s1_rec_a s1_rec_b = 0"
  by (simp_all add: traversal_prefix_order lcp_along_def word_at_def upt_3
      s1_rec_a_def s1_rec_b_def s1_rec_c_def)

lemma s1_groups_16: "run_groups 16 (prefix_order 3) s1_stats s1_run = [s1_run]"
  by (simp add: run_groups_def s1_run_def s1_widths(2,3) ceil_log2_4 max_record_size_def
      record_bits_def Let_def s1_lcp)

theorem write_block_empty_run_witness:
  "write_block 16 (new_writer (prefix_order 3)) [] [] 0 s1_stats = None \<and>
   comparator_ok (prefix_order 3) \<and> s1_run \<noteq> [] \<and> length s1_run < 2 ^ 64 \<and>
   list_all (\<lambda>r. length (ng_words r) = cmp_order (prefix_order 3)) s1_run \<and>
   successively (\<lambda>a b. cmp_compare (prefix_order 3) a b < 0) s1_run \<and>
   stats_cover s1_stats s1_run \<and> block_room 16 (prefix_order 3) s1_stats \<and>
   write_block 16 (new_writer (prefix_order 3)) [] s1_run (of_nat (length s1_run)) s1_stats
     = Some ([] @ [of_nat (word_width s1_stats), of_nat (count_width s1_stats)] @
             run_bytes 16 (prefix_order 3) (ceil_log2 (cmp_order (prefix_order 3) + 1))
               (word_width s1_stats) (count_width s1_stats)
               (run_groups 16 (prefix_order 3) s1_stats s1_run)) \<and>
   run_groups 16 (prefix_order 3) s1_stats s1_run = [s1_run] \<and>
   list_all (\<lambda>g. g \<noteq> [] \<and> (of_nat (length g) :: 64 word) \<noteq> 0)
     (run_groups 16 (prefix_order 3) s1_stats s1_run)"
proof -
  have ok: "comparator_ok (prefix_order 3)"
    by (rule prefix_order_ok) simp_all
  note t = write_block_empty_run[of 16 "new_writer (prefix_order 3)" "[]" 0 s1_stats
      "prefix_order 3" s1_run]
  have pre: "comparator_ok (prefix_order 3) \<and> s1_run \<noteq> [] \<and> length s1_run < 2 ^ 64 \<and>
    list_all (\<lambda>r. length (ng_words r) = cmp_order (prefix_order 3)) s1_run \<and>
    successively (\<lambda>a b. cmp_compare (prefix_order 3) a b < 0) s1_run \<and>
    stats_cover s1_stats s1_run \<and> (16 = BLOCK_BYTES \<or> block_room 16 (prefix_order 3) s1_stats)"
    using ok s1_run_ok s1_room(2) by (intro conjI disjI2)
  show ?thesis
    using t pre ok s1_run_ok s1_room(2) s1_groups_16 by (intro conjI) blast+
qed

subsection \<open>The lcp field\<close>

lemma order_less_width: "N < 2 ^ ceil_log2 (N + 1)"
  using ceil_log2_upper[of "N + 1"] by simp

lemma lcp_field_record:
  assumes "lcp_along (traversal c) ptr prev < 2 ^ l"
  shows "lcp_field l (record_bits c l w v ptr prev) = lcp_along (traversal c) ptr prev"
  using assms by (simp add: lcp_field_def record_bits_def Let_def nat_of_bits_bits_of)

text \<open>
  C8. For a run that is strictly increasing under the comparator, \<open>write_block\<close> is
  defined (the assertion \<open>lcp < N\<close> never fails) and writes the blocks of the groups of
  the run; in every block, every record after the first is encoded against its
  predecessor \<open>prev\<close> as \<open>record_bits\<close>, whose lcp field holds \<open>lcp(ptr, prev)\<close>, and
  this value is at least 0 and less than the order \<open>N\<close>.
\<close>

theorem lcp_bound:
  assumes "comparator_ok c" and "run \<noteq> []" and "length run < 2 ^ 64"
    and "list_all (\<lambda>r. length (ng_words r) = cmp_order c) run"
    and "successively (\<lambda>a b. cmp_compare c a b < 0) run"
    and "stats_cover stats run"
    and "bb = BLOCK_BYTES \<or> block_room bb c stats"
  shows "write_block bb (new_writer c) os run (of_nat (length run)) stats
      = Some (os @ [of_nat (word_width stats), of_nat (count_width stats)] @
              run_bytes bb c (ceil_log2 (cmp_order c + 1)) (word_width stats)
                (count_width stats) (run_groups bb c stats run)) \<and>
    concat (run_groups bb c stats run) = run \<and>
    list_all
      (successively (\<lambda>prev ptr.
          0 \<le> cmp_lcp c ptr prev \<and> cmp_lcp c ptr prev < int (cmp_order c) \<and>
          int (lcp_field (ceil_log2 (cmp_order c + 1))
                 (record_bits c (ceil_log2 (cmp_order c + 1)) (word_width stats)
                    (count_width stats) ptr prev))
            = cmp_lcp c ptr prev))
      (run_groups bb c stats run)"
proof -
  let ?N = "cmp_order c"
  let ?l = "ceil_log2 (?N + 1)"
  let ?w = "word_width stats" and ?v = "count_width stats"
  have room: "block_room bb c stats"
    using assms(1,6,7) by (rule room_cases)
  note wb = write_block_run[OF assms(1-6) room]
  have lcp: "cmp_lcp c x y = int (lcp_along (traversal c) x y)" for x y
    using assms(1) by (simp add: comparator_ok_def)
  have "successively (\<lambda>prev ptr.
          0 \<le> cmp_lcp c ptr prev \<and> cmp_lcp c ptr prev < int ?N \<and>
          int (lcp_field ?l (record_bits c ?l ?w ?v ptr prev)) = cmp_lcp c ptr prev) g"
    if g: "g \<in> set (run_groups bb c stats run)" for g
  proof -
    have fit: "list_all (fits ?N ?w ?v) g"
      and dist: "successively (\<lambda>a b. ng_words a \<noteq> ng_words b) g"
      using wb(4)[OF g] by simp_all
    show ?thesis
      using dist
    proof (rule successively_mono)
      fix prev ptr
      assume "prev \<in> set g" "ptr \<in> set g" and ne: "ng_words prev \<noteq> ng_words ptr"
      then have lp: "length (ng_words prev) = ?N" and lx: "length (ng_words ptr) = ?N"
        using fit by (simp_all add: list_all_iff fits_def)
      have k: "lcp_along (traversal c) ptr prev < ?N"
        using lcp_along_less[OF assms(1) lx lp] ne by simp
      then have "lcp_along (traversal c) ptr prev < 2 ^ ?l"
        using order_less_width[of ?N] by simp
      then have "lcp_field ?l (record_bits c ?l ?w ?v ptr prev) = lcp_along (traversal c) ptr prev"
        by (rule lcp_field_record)
      then show "0 \<le> cmp_lcp c ptr prev \<and> cmp_lcp c ptr prev < int ?N \<and>
          int (lcp_field ?l (record_bits c ?l ?w ?v ptr prev)) = cmp_lcp c ptr prev"
        using k by (simp add: lcp)
    qed
  qed
  then show ?thesis
    using wb(1)[of os] wb(2) by (simp add: list_all_iff)
qed

theorem lcp_bound_witness:
  "comparator_ok (prefix_order 3) \<and> s1_run \<noteq> [] \<and> length s1_run < 2 ^ 64 \<and>
   list_all (\<lambda>r. length (ng_words r) = cmp_order (prefix_order 3)) s1_run \<and>
   successively (\<lambda>a b. cmp_compare (prefix_order 3) a b < 0) s1_run \<and>
   stats_cover s1_stats s1_run \<and> block_room 16 (prefix_order 3) s1_stats \<and>
   run_groups 16 (prefix_order 3) s1_stats s1_run = [[s1_rec_c, s1_rec_b, s1_rec_a]] \<and>
   cmp_lcp (prefix_order 3) s1_rec_b s1_rec_c = 2 \<and>
   cmp_lcp (prefix_order 3) s1_rec_a s1_rec_b = 0 \<and>
   lcp_field 2 (record_bits (prefix_order 3) 2 3 2 s1_rec_b s1_rec_c) = 2 \<and>
   lcp_field 2 (record_bits (prefix_order 3) 2 3 2 s1_rec_a s1_rec_b) = 0 \<and>
   list_all
     (successively (\<lambda>prev ptr.
         0 \<le> cmp_lcp (prefix_order 3) ptr prev \<and>
         cmp_lcp (prefix_order 3) ptr prev < int (cmp_order (prefix_order 3)) \<and>
         int (lcp_field (ceil_log2 (cmp_order (prefix_order 3) + 1))
                (record_bits (prefix_order 3) (ceil_log2 (cmp_order (prefix_order 3) + 1))
                   (word_width s1_stats) (count_width s1_stats) ptr prev))
           = cmp_lcp (prefix_order 3) ptr prev))
     (run_groups 16 (prefix_order 3) s1_stats s1_run)"
proof -
  have ok: "comparator_ok (prefix_order 3)"
    by (rule prefix_order_ok) simp_all
  have room: "16 = BLOCK_BYTES \<or> block_room 16 (prefix_order 3) s1_stats"
    using s1_room(2) by simp
  note t = lcp_bound[OF ok s1_run_ok room, of "[]"]
  have lcp: "cmp_lcp (prefix_order 3) s1_rec_b s1_rec_c = 2"
    "cmp_lcp (prefix_order 3) s1_rec_a s1_rec_b = 0"
    using ok s1_lcp by (simp_all add: comparator_ok_def)
  have fld: "lcp_field 2 (record_bits (prefix_order 3) 2 3 2 s1_rec_b s1_rec_c) = 2"
    "lcp_field 2 (record_bits (prefix_order 3) 2 3 2 s1_rec_a s1_rec_b) = 0"
    by (simp_all add: lcp_field_record s1_lcp)
  have gs: "run_groups 16 (prefix_order 3) s1_stats s1_run = [[s1_rec_c, s1_rec_b, s1_rec_a]]"
    using s1_groups_16 by (simp add: s1_run_def)
  show ?thesis
    using t ok s1_run_ok s1_room(2) gs lcp fld by (intro conjI) blast+
qed

subsection \<open>Block boundaries\<close>

lemma block_begin_explicit:
  assumes f: "fits (cmp_order c) w v ptr" and n: "n \<noteq> 0"
    and room: "length (explicit_bits (cmp_order c) w v ptr @ tail) \<le> 8 * k"
  shows "\<exists>it. block_begin (read_block (byte_chunks k (explicit_bits (cmp_order c) w v ptr @ tail))
                   (new_fc_block c n w v)) = Some it \<and>
              deref it = ptr \<and> bi_position (m_it it) = cmp_order c * w + v"
proof -
  let ?N = "cmp_order c"
  let ?bits = "explicit_bits ?N w v ptr @ tail"
  let ?pad = "replicate (8 * k - length ?bits) False"
  let ?blk = "read_block (byte_chunks k ?bits) (new_fc_block c n w v)"
  have mem: "blk_memory ?blk = [] @ explicit_bits ?N w v ptr @ (tail @ ?pad)"
    using bits_of_bytes_chunks_fit[OF room] by (simp add: read_block_def)
  let ?it0 = "\<lparr> m_it = \<lparr> bi_data = blk_memory ?blk, bi_position = 0 \<rparr>,
                it_comparator = blk_comparator ?blk, m_back = new_cache (blk_N ?blk),
                m_pos = 0, it_size = blk_size ?blk,
                it_l = blk_l ?blk, it_w = blk_w ?blk, it_v = blk_v ?blk \<rparr>"
  have "decode_explicit ?it0
      = Some (?it0\<lparr> m_it := (m_it ?it0)\<lparr> bi_position := length ([] :: bool list)
                                   + (?N * it_w ?it0 + it_v ?it0) \<rparr>,
                    m_back := \<lparr> c_words = ng_words ptr, c_value = ng_value ptr,
                                c_pos = int ?N + 2 \<rparr> \<rparr>)"
  proof (rule decode_explicit_ok)
    show "bi_data (m_it ?it0) = [] @ explicit_bits ?N (it_w ?it0) (it_v ?it0) ptr @ (tail @ ?pad)"
      using mem by (simp add: read_block_def new_fc_block_def)
    show "fits ?N (it_w ?it0) (it_v ?it0) ptr"
      using f by (simp add: read_block_def new_fc_block_def)
  qed (simp_all add: read_block_def new_fc_block_def new_cache_def)
  moreover have "block_begin ?blk = decode_explicit ?it0"
    using n by (simp add: block_begin_def new_fc_iterator_def Let_def read_block_def
        new_fc_block_def)
  ultimately show ?thesis
    by (simp add: deref_def read_block_def new_fc_block_def)
qed

text \<open>
  C6. The body of the writer's loop, for a record \<open>ptr\<close> that follows \<open>prev_ptr\<close> in a
  run, with the current block holding \<open>ws_buffer\<close>: exactly when the bits that remain in
  the block are fewer than the worst-case record size \<open>l + N * w + v\<close>, the block is
  closed (its record count and its bits, padded to \<open>bb\<close> bytes, go to the stream) and
  the new block starts with the record written explicitly, without an lcp field;
  otherwise the stream is left alone and the front-coded record is appended to the
  block. An iterator at the beginning of a block that starts with an explicit record
  decodes that record from the first \<open>N * w + v\<close> bits of the block itself, whatever
  follows them: it reads nothing of the block before.
\<close>

theorem block_boundary:
  assumes "comparator_ok c" and "fits (cmp_order c) w v ptr"
    and "length (ng_words (prev_ptr st)) = cmp_order c"
    and "ng_words ptr \<noteq> ng_words (prev_ptr st)"
    and "length (ws_buffer st) \<le> 8 * bb" and "8 * bb < 2 ^ 64"
  shows
   "(8 * bb - length (ws_buffer st) < ceil_log2 (cmp_order c + 1) + cmp_order c * w + v \<longrightarrow>
       write_step bb c (ceil_log2 (cmp_order c + 1)) w v ptr st
         = Some (st\<lparr> ws_os := ws_os st @ save_pod64 (ngrams_in_block st)
                                @ byte_chunks bb (ws_buffer st),
                     ws_buffer := explicit_bits (cmp_order c) w v ptr,
                     written := encoded st, ngrams_in_block := 0, prev_ptr := ptr \<rparr>)) \<and>
    (\<not> 8 * bb - length (ws_buffer st) < ceil_log2 (cmp_order c + 1) + cmp_order c * w + v \<longrightarrow>
       write_step bb c (ceil_log2 (cmp_order c + 1)) w v ptr st
         = Some (st\<lparr> ws_buffer := ws_buffer st @
                        record_bits c (ceil_log2 (cmp_order c + 1)) w v ptr (prev_ptr st),
                     prev_ptr := ptr \<rparr>)) \<and>
    (n \<noteq> 0 \<and> length (explicit_bits (cmp_order c) w v ptr @ tail) \<le> 8 * k \<longrightarrow>
       (\<exists>it. block_begin (read_block (byte_chunks k (explicit_bits (cmp_order c) w v ptr @ tail))
                  (new_fc_block c n w v)) = Some it \<and>
             deref it = ptr \<and> bi_position (m_it it) = cmp_order c * w + v))"
proof (intro conjI impI)
  let ?l = "ceil_log2 (cmp_order c + 1)"
  have left: "bits_left bb (length (ws_buffer st)) = 8 * bb - length (ws_buffer st)"
    using assms(5,6) by (rule bits_left_eq)
  {
    assume "8 * bb - length (ws_buffer st) < ?l + cmp_order c * w + v"
    then have "bits_left bb (length (ws_buffer st)) < max_record_size ?l (cmp_order c) w v"
      by (simp add: left max_record_size_def)
    then show "write_step bb c ?l w v ptr st
         = Some (st\<lparr> ws_os := ws_os st @ save_pod64 (ngrams_in_block st)
                                @ byte_chunks bb (ws_buffer st),
                     ws_buffer := explicit_bits (cmp_order c) w v ptr,
                     written := encoded st, ngrams_in_block := 0, prev_ptr := ptr \<rparr>)"
      using write_step_flush[OF assms(2), of bb st ?l] by (simp add: save_def)
  }
  {
    assume "\<not> 8 * bb - length (ws_buffer st) < ?l + cmp_order c * w + v"
    then have "\<not> bits_left bb (length (ws_buffer st)) < max_record_size ?l (cmp_order c) w v"
      by (simp add: left max_record_size_def)
    then show "write_step bb c ?l w v ptr st
         = Some (st\<lparr> ws_buffer := ws_buffer st @ record_bits c ?l w v ptr (prev_ptr st),
                     prev_ptr := ptr \<rparr>)"
      using write_step_append[OF assms(1-4)] by simp
  }
  {
    assume "n \<noteq> 0 \<and> length (explicit_bits (cmp_order c) w v ptr @ tail) \<le> 8 * k"
    then show "\<exists>it. block_begin (read_block
                  (byte_chunks k (explicit_bits (cmp_order c) w v ptr @ tail))
                  (new_fc_block c n w v)) = Some it \<and>
             deref it = ptr \<and> bi_position (m_it it) = cmp_order c * w + v"
      using block_begin_explicit[OF assms(2), of n tail k] by simp
  }
qed

lemma bits_of_numeral:
  "bits_of x (numeral k) = odd x # bits_of (x div 2) (pred_numeral k)"
  by (simp add: numeral_eq_Suc)

lemma byte_chunks_numeral:
  "byte_chunks (numeral k) bs
     = of_nat (nat_of_bits (take 8 bs)) # byte_chunks (pred_numeral k) (drop 8 bs)"
  by (simp add: numeral_eq_Suc)

lemma save_pod64_1: "save_pod64 1 = [1, 0, 0, 0, 0, 0, 0, 0]"
  by (simp add: save_pod64_def bits_of_numeral byte_chunks_numeral)

lemma s1_explicit_c:
  "explicit_bits 3 3 2 s1_rec_c
     = [True, False, False, False, True, False, True, True, False, False, True]"
  by (simp add: explicit_bits_def word_bits_def s1_rec_c_def upt_3 bits_of_numeral)

lemma s1_fits: "fits 3 3 2 s1_rec_a" "fits 3 3 2 s1_rec_b" "fits 3 3 2 s1_rec_c"
  by (simp_all add: fits_def s1_rec_a_def s1_rec_b_def s1_rec_c_def)

theorem block_boundary_witness:
  "comparator_ok (prefix_order 3) \<and> fits 3 3 2 s1_rec_b \<and>
   length (ng_words (prev_ptr s1_state)) = 3 \<and>
   ng_words s1_rec_b \<noteq> ng_words (prev_ptr s1_state) \<and>
   length (ws_buffer s1_state) = 11 \<and>
   write_step 2 (prefix_order 3) 2 3 2 s1_rec_b s1_state
     = Some (s1_state\<lparr> ws_os := [3, 2, 1, 0, 0, 0, 0, 0, 0, 0, 209, 4],
                        ws_buffer := explicit_bits 3 3 2 s1_rec_b,
                        written := 0, ngrams_in_block := 0, prev_ptr := s1_rec_b \<rparr>) \<and>
   write_step 16 (prefix_order 3) 2 3 2 s1_rec_b s1_state
     = Some (s1_state\<lparr> ws_buffer := ws_buffer s1_state @
                          record_bits (prefix_order 3) 2 3 2 s1_rec_b s1_rec_c,
                        prev_ptr := s1_rec_b \<rparr>) \<and>
   (\<exists>it. block_begin (read_block (byte_chunks 2 (explicit_bits 3 3 2 s1_rec_b @ []))
              (new_fc_block (prefix_order 3) 1 3 2)) = Some it \<and>
         deref it = s1_rec_b \<and> bi_position (m_it it) = 11)"
proof -
  have ok: "comparator_ok (prefix_order 3)"
    by (rule prefix_order_ok) simp_all
  have f: "fits (cmp_order (prefix_order 3)) 3 2 s1_rec_b"
    using s1_fits(2) by simp
  have lp: "length (ng_words (prev_ptr s1_state)) = cmp_order (prefix_order 3)"
    by (simp add: s1_state_def s1_rec_c_def)
  have ne: "ng_words s1_rec_b \<noteq> ng_words (prev_ptr s1_state)"
    by (simp add: s1_state_def s1_rec_b_def s1_rec_c_def)
  have len: "length (ws_buffer s1_state) = 11"
    by (simp add: s1_state_def)
  have st: "ws_os s1_state = [3, 2]" "ngrams_in_block s1_state = 1" "encoded s1_state = 0"
    "prev_ptr s1_state = s1_rec_c"
    by (simp_all add: s1_state_def)
  have bytes: "byte_chunks 2 (ws_buffer s1_state) = [209, 4]"
    by (simp add: s1_state_def s1_explicit_c byte_chunks_numeral)
  have flush: "write_step 2 (prefix_order 3) 2 3 2 s1_rec_b s1_state
     = Some (s1_state\<lparr> ws_os := [3, 2, 1, 0, 0, 0, 0, 0, 0, 0, 209, 4],
                        ws_buffer := explicit_bits 3 3 2 s1_rec_b,
                        written := 0, ngrams_in_block := 0, prev_ptr := s1_rec_b \<rparr>)"
    using block_boundary[OF ok f lp ne, of 2 1 "[]" 2] len
    by (simp add: ceil_log2_4 st bytes save_pod64_1)
  have append: "write_step 16 (prefix_order 3) 2 3 2 s1_rec_b s1_state
     = Some (s1_state\<lparr> ws_buffer := ws_buffer s1_state @
                          record_bits (prefix_order 3) 2 3 2 s1_rec_b s1_rec_c,
                        prev_ptr := s1_rec_b \<rparr>)"
    using block_boundary[OF ok f lp ne, of 16 1 "[]" 2] len
    by (simp add: ceil_log2_4 st)
  have dec: "\<exists>it. block_begin (read_block (byte_chunks 2 (explicit_bits 3 3 2 s1_rec_b @ []))
              (new_fc_block (prefix_order 3) 1 3 2)) = Some it \<and>
         deref it = s1_rec_b \<and> bi_position (m_it it) = 11"
    using block_boundary[OF ok f lp ne, of 2 1 "[]" 2] len by simp
  show ?thesis
    using ok s1_fits(2) lp ne len flush append dec by simp
qed

subsection \<open>The length of the stream\<close>

lemma length_last_block [simp]:
  "length (last_block c l w v g) = 8 + (length (block_bits c l w v g) + 7) div 8"
  by (simp add: last_block_def)






lemma ceil_log2_small: "ceil_log2 2 = 1" "ceil_log2 3 = 2" "ceil_log2 8 = 3"
  by (simp_all add: ceil_log2.simps)




end
